theory Spec2Isabelle
  imports Main "HOL-Library.Word"
begin

section \<open>The reader layer of libcacard (vreader.c)\<close>

text \<open>
  The C file keeps its readers, registry entries and registry lists in heap objects that
  point at each other. The model keeps one typed heap per struct (a map from addresses to
  records), pointers are \<open>addr option\<close> with \<open>None\<close> for \<open>NULL\<close>, and every function
  takes the state and returns the new one. What is undefined behaviour in C (a load through
  \<open>NULL\<close> or through a pointer to freed memory, a failed \<open>assert\<close>, a \<open>memcpy\<close> beyond
  a buffer) is a value of type \<open>fault\<close>. Calls into the mutexes and the card emulation
  are appended to the state's \<open>trace\<close> in program order; the event queue is a parameter
  of the functions that call it.
\<close>

subsection \<open>Types\<close>

type_synonym addr = nat
type_synonym byte = "8 word"

text \<open>
  Modelled from the spec: \<open>vreader_id_t\<close> is declared in a header that is not part of
  this file; the identifier is an unsigned machine integer whose value \<open>(vreader_id_t)-1\<close>
  is the unassigned sentinel. It is 32 bits wide here.
\<close>

type_synonym vreader_id_t = "32 word"

text \<open>
  Modelled from the spec: the enumerations are declared in headers that are not part of this
  file. The file names the three reader statuses, the two power states, the card status
  \<open>VCARD_DONE\<close> and the four event types; \<open>VCARD_NEXT\<close> and \<open>VCARD_FAIL\<close> stand for the
  card statuses other than \<open>VCARD_DONE\<close>.
\<close>

datatype VReaderStatus = VREADER_OK | VREADER_NO_CARD | VREADER_OUT_OF_MEMORY

datatype VCardPower = VCARD_POWER_ON | VCARD_POWER_OFF

datatype VCardStatus = VCARD_DONE | VCARD_NEXT | VCARD_FAIL

datatype VEventType =
  VEVENT_READER_INSERT | VEVENT_READER_REMOVE | VEVENT_CARD_INSERT | VEVENT_CARD_REMOVE

datatype fault = NullPointer | DanglingPointer | AssertionFailed | OutOfBounds

text \<open>\<open>struct VReaderStruct\<close>; \<open>reference_count\<close> is a C \<open>int\<close>, read signed with \<open>sint\<close>.
  The fields \<open>card\<close>, \<open>name\<close> and \<open>id\<close> carry the suffix \<open>_r\<close>. The embedded mutex has
  no field: taking and releasing it shows in the trace.\<close>

record VReaderStruct =
  reference_count :: "32 word"
  card_r :: "addr option"
  name_r :: "string option"
  id_r :: vreader_id_t
  reader_private :: "addr option"
  reader_private_free :: "addr option"

text \<open>\<open>struct VReaderListEntryStruct\<close> (fields \<open>next\<close>, \<open>prev\<close>, \<open>reader\<close>) and
  \<open>struct VReaderListStruct\<close>.\<close>

record VReaderListEntryStruct =
  next_e :: "addr option"
  prev_e :: "addr option"
  reader_e :: "addr option"

record VReaderListStruct =
  head :: "addr option"
  tail :: "addr option"

text \<open>Modelled from the spec: a response of the card layer, of which this file reads the
  fields \<open>b_data\<close> and \<open>b_total_len\<close> (the struct is declared in the card layer's header).\<close>

record VCardResponse =
  b_data :: "byte list"
  b_total_len :: int

text \<open>The value built by \<open>vevent_new(type, reader, card)\<close>.\<close>

datatype VEvent = VEvent VEventType "addr option" "addr option"

datatype mutex = ReaderLock addr | ListMutex

text \<open>The calls this file makes into its collaborators, with their arguments.\<close>

datatype ext =
    Qemu_mutex_lock mutex
  | Qemu_mutex_unlock mutex
  | Vcard_reference "addr option"
  | Vcard_free addr
  | Vcard_reset addr VCardPower
  | Vcard_get_atr addr
  | Vcard_apdu_new "byte list" int
  | Vcard_make_response "16 word"
  | Vcard_process_apdu addr addr
  | Vcard_response_delete "VCardResponse option"
  | Vcard_apdu_delete "addr option"
  | Vevent_queue_vevent VEvent
  | Reader_private_free addr "addr option"
  | Qemu_free_name string

text \<open>What the card layer answers. Its functions are not part of this file, so they are
  parameters of the model: the parser returns the command (or \<open>NULL\<close>) and the status word
  it stores through its last argument, the processor returns its status and what it leaves
  in \<open>response\<close>, \<open>vcard_get_atr\<close> returns the buffer and the length it leaves behind
  (the length is passed by pointer, \<open>None\<close> for \<open>NULL\<close>). Commands are opaque to this
  file and stand as addresses.\<close>

record VCardEmul =
  vcard_apdu_new :: "byte list \<Rightarrow> int \<Rightarrow> addr option \<times> 16 word"
  vcard_make_response :: "16 word \<Rightarrow> VCardResponse option"
  vcard_process_apdu :: "addr \<Rightarrow> addr \<Rightarrow> VCardStatus \<times> VCardResponse option"
  vcard_get_atr :: "addr \<Rightarrow> byte list \<Rightarrow> int option \<Rightarrow> byte list \<times> int option"

text \<open>The state: the three heaps, the global \<open>vreader_list\<close>, the next address
  \<open>qemu_malloc\<close> hands out, and the trace.\<close>

record state =
  readers :: "addr \<rightharpoonup> VReaderStruct"
  entries :: "addr \<rightharpoonup> VReaderListEntryStruct"
  vlists :: "addr \<rightharpoonup> VReaderListStruct"
  vreader_list :: "addr option"
  brk :: addr
  trace :: "ext list"

subsection \<open>Memory and collaborator primitives\<close>

text \<open>A call into a collaborator is recorded at the end of the trace.\<close>

definition ext_call :: "ext \<Rightarrow> state \<Rightarrow> state" where
  "ext_call c s = s\<lparr>trace := trace s @ [c]\<rparr>"

text \<open>Modelled from the spec: \<open>qemu_malloc\<close> never returns \<open>NULL\<close> (a failed allocation
  is fatal). It hands out an address it has not handed out before, so freed memory is not
  reused and a pointer to it stays invalid.\<close>

definition qemu_malloc :: "state \<Rightarrow> addr \<times> state" where
  "qemu_malloc s = (brk s, s\<lparr>brk := brk s + 1\<rparr>)"

text \<open>A load through a pointer to a reader, to a list entry, to a list: the address and the
  object, or the fault.\<close>

definition reader_at :: "state \<Rightarrow> addr option \<Rightarrow> fault + addr \<times> VReaderStruct" where
  "reader_at s p =
     (case p of
        None \<Rightarrow> Inl NullPointer
      | Some a \<Rightarrow> (case readers s a of None \<Rightarrow> Inl DanglingPointer | Some r \<Rightarrow> Inr (a, r)))"

definition entry_at :: "state \<Rightarrow> addr option \<Rightarrow> fault + addr \<times> VReaderListEntryStruct" where
  "entry_at s p =
     (case p of
        None \<Rightarrow> Inl NullPointer
      | Some a \<Rightarrow> (case entries s a of None \<Rightarrow> Inl DanglingPointer | Some e \<Rightarrow> Inr (a, e)))"

definition list_at :: "state \<Rightarrow> addr option \<Rightarrow> fault + addr \<times> VReaderListStruct" where
  "list_at s p =
     (case p of
        None \<Rightarrow> Inl NullPointer
      | Some a \<Rightarrow> (case vlists s a of None \<Rightarrow> Inl DanglingPointer | Some l \<Rightarrow> Inr (a, l)))"

text \<open>Modelled from the spec: the card layer's \<open>vcard_reference\<close> takes a counted reference
  and returns its argument; absent is a legal argument and comes back absent.\<close>

definition vcard_reference :: "addr option \<Rightarrow> state \<Rightarrow> addr option \<times> state" where
  "vcard_reference c s = (c, ext_call (Vcard_reference c) s)"

text \<open>Modelled from the spec: \<open>vcard_free\<close> gives one counted reference to the card back.\<close>

definition vcard_free :: "addr \<Rightarrow> state \<Rightarrow> state" where
  "vcard_free c s = ext_call (Vcard_free c) s"

subsection \<open>Reader objects\<close>

definition vreader_lock :: "addr option \<Rightarrow> state \<Rightarrow> fault + state" where
  "vreader_lock reader s =
     (case reader_at s reader of
        Inl f \<Rightarrow> Inl f
      | Inr (a, r) \<Rightarrow> Inr (ext_call (Qemu_mutex_lock (ReaderLock a)) s))"

definition vreader_unlock :: "addr option \<Rightarrow> state \<Rightarrow> fault + state" where
  "vreader_unlock reader s =
     (case reader_at s reader of
        Inl f \<Rightarrow> Inl f
      | Inr (a, r) \<Rightarrow> Inr (ext_call (Qemu_mutex_unlock (ReaderLock a)) s))"

definition vreader_new ::
  "string option \<Rightarrow> addr option \<Rightarrow> addr option \<Rightarrow> state \<Rightarrow> addr option \<times> state" where
  "vreader_new name private private_free s =
     (case qemu_malloc s of
        (a, s1) \<Rightarrow>
          (Some a,
           s1\<lparr>readers := (readers s1)(a \<mapsto>
                \<lparr>reference_count = 1, card_r = None, name_r = name, id_r = - 1,
                 reader_private = private, reader_private_free = private_free\<rparr>)\<rparr>))"

definition vreader_reference :: "addr option \<Rightarrow> state \<Rightarrow> fault + addr option \<times> state" where
  "vreader_reference reader s =
     (if reader = None then Inr (None, s)
      else case vreader_lock reader s of
        Inl f \<Rightarrow> Inl f
      | Inr s1 \<Rightarrow>
          (case reader_at s1 reader of
             Inl f \<Rightarrow> Inl f
           | Inr (a, r) \<Rightarrow>
               (case vreader_unlock reader
                       (s1\<lparr>readers := (readers s1)(a \<mapsto>
                              r\<lparr>reference_count := reference_count r + 1\<rparr>)\<rparr>) of
                  Inl f \<Rightarrow> Inl f
                | Inr s2 \<Rightarrow> Inr (reader, s2))))"

text \<open>\<open>vreader_free\<close>: the count is decremented on both branches (a post-decrement in the
  test); at or below one the reader is torn down.\<close>

definition vreader_free :: "addr option \<Rightarrow> state \<Rightarrow> fault + state" where
  "vreader_free reader s =
     (if reader = None then Inr s
      else case vreader_lock reader s of
        Inl f \<Rightarrow> Inl f
      | Inr s1 \<Rightarrow>
          (case reader_at s1 reader of
             Inl f \<Rightarrow> Inl f
           | Inr (a, r) \<Rightarrow>
               (let s2 = s1\<lparr>readers := (readers s1)(a \<mapsto>
                              r\<lparr>reference_count := reference_count r - 1\<rparr>)\<rparr>
                in if 1 < sint (reference_count r) then vreader_unlock reader s2
                   else case vreader_unlock reader s2 of
                     Inl f \<Rightarrow> Inl f
                   | Inr s3 \<Rightarrow>
                       (let s4 = (case card_r r of None \<Rightarrow> s3 | Some c \<Rightarrow> vcard_free c s3);
                            s5 = (case name_r r of None \<Rightarrow> s4
                                  | Some n \<Rightarrow> ext_call (Qemu_free_name n) s4);
                            s6 = (case reader_private_free r of None \<Rightarrow> s5
                                  | Some f \<Rightarrow>
                                      ext_call (Reader_private_free f (reader_private r)) s5)
                        in Inr (s6\<lparr>readers := (readers s6)(a := None)\<rparr>)))))"

definition vreader_get_card :: "addr option \<Rightarrow> state \<Rightarrow> fault + addr option \<times> state" where
  "vreader_get_card reader s =
     (case vreader_lock reader s of
        Inl f \<Rightarrow> Inl f
      | Inr s1 \<Rightarrow>
          (case reader_at s1 reader of
             Inl f \<Rightarrow> Inl f
           | Inr (a, r) \<Rightarrow>
               (case vcard_reference (card_r r) s1 of
                  (cardp, s2) \<Rightarrow>
                    (case vreader_unlock reader s2 of
                       Inl f \<Rightarrow> Inl f
                     | Inr s3 \<Rightarrow> Inr (cardp, s3)))))"

definition vreader_card_is_present ::
  "addr option \<Rightarrow> state \<Rightarrow> fault + VReaderStatus \<times> state" where
  "vreader_card_is_present reader s =
     (case vreader_get_card reader s of
        Inl f \<Rightarrow> Inl f
      | Inr (cardp, s1) \<Rightarrow>
          (case cardp of
             None \<Rightarrow> Inr (VREADER_NO_CARD, s1)
           | Some c \<Rightarrow> Inr (VREADER_OK, vcard_free c s1)))"

definition vreader_get_id :: "addr option \<Rightarrow> state \<Rightarrow> fault + vreader_id_t" where
  "vreader_get_id reader s =
     (if reader = None then Inr (- 1)
      else case reader_at s reader of Inl f \<Rightarrow> Inl f | Inr (a, r) \<Rightarrow> Inr (id_r r))"

definition vreader_set_id ::
  "addr option \<Rightarrow> vreader_id_t \<Rightarrow> state \<Rightarrow> fault + VReaderStatus \<times> state" where
  "vreader_set_id reader ident s =
     (if reader = None then Inr (VREADER_NO_CARD, s)
      else case reader_at s reader of
        Inl f \<Rightarrow> Inl f
      | Inr (a, r) \<Rightarrow>
          Inr (VREADER_OK, s\<lparr>readers := (readers s)(a \<mapsto> r\<lparr>id_r := ident\<rparr>)\<rparr>))"

definition vreader_get_name :: "addr option \<Rightarrow> state \<Rightarrow> fault + string option" where
  "vreader_get_name reader s =
     (if reader = None then Inr None
      else case reader_at s reader of Inl f \<Rightarrow> Inl f | Inr (a, r) \<Rightarrow> Inr (name_r r))"

definition vreader_get_private :: "addr option \<Rightarrow> state \<Rightarrow> fault + addr option" where
  "vreader_get_private reader s =
     (case reader_at s reader of Inl f \<Rightarrow> Inl f | Inr (a, r) \<Rightarrow> Inr (reader_private r))"

subsection \<open>Card session operations\<close>

text \<open>\<open>atr\<close> is the caller's buffer (\<open>None\<close> for \<open>NULL\<close>) and \<open>len\<close> the integer behind
  the caller's pointer (\<open>None\<close> for \<open>NULL\<close>); both come back as the call leaves them.\<close>

definition vreader_reset ::
  "VCardEmul \<Rightarrow> addr option \<Rightarrow> VCardPower \<Rightarrow> byte list option \<Rightarrow> int option \<Rightarrow> state \<Rightarrow>
   fault + (VReaderStatus \<times> byte list option \<times> int option) \<times> state" where
  "vreader_reset E reader pwr atr len s =
     (case vreader_get_card reader s of
        Inl f \<Rightarrow> Inl f
      | Inr (cardp, s1) \<Rightarrow>
          (case cardp of
             None \<Rightarrow> Inr ((VREADER_NO_CARD, atr, len), s1)
           | Some c \<Rightarrow>
               (let s2 = ext_call (Vcard_reset c pwr) s1
                in case atr of
                     None \<Rightarrow> Inr ((VREADER_OK, atr, len), vcard_free c s2)
                   | Some buf \<Rightarrow>
                       (case vcard_get_atr E c buf len of
                          (buf', len') \<Rightarrow>
                            Inr ((VREADER_OK, Some buf', len'),
                                 vcard_free c (ext_call (Vcard_get_atr c) s2))))))"

definition vreader_power_on ::
  "VCardEmul \<Rightarrow> addr option \<Rightarrow> byte list option \<Rightarrow> int option \<Rightarrow> state \<Rightarrow>
   fault + (VReaderStatus \<times> byte list option \<times> int option) \<times> state" where
  "vreader_power_on E reader atr len s = vreader_reset E reader VCARD_POWER_ON atr len s"

definition vreader_power_off ::
  "VCardEmul \<Rightarrow> addr option \<Rightarrow> state \<Rightarrow> fault + VReaderStatus \<times> state" where
  "vreader_power_off E reader s =
     (case vreader_reset E reader VCARD_POWER_OFF None None s of
        Inl f \<Rightarrow> Inl f
      | Inr ((st, atr, len), s1) \<Rightarrow> Inr (st, s1))"

text \<open>\<open>memcpy(dst, src, n)\<close> with \<open>n\<close> a C \<open>int\<close> converted to \<open>size_t\<close>: a negative
  \<open>n\<close> or one beyond either buffer leaves the buffers.\<close>

definition memcpy :: "byte list \<Rightarrow> byte list \<Rightarrow> int \<Rightarrow> fault + byte list" where
  "memcpy dst src n =
     (if n < 0 \<or> int (length src) < n \<or> int (length dst) < n then Inl OutOfBounds
      else Inr (take (nat n) src @ drop (nat n) dst))"

text \<open>\<open>receive_buf\<close> is the caller's buffer and \<open>receive_buf_len\<close> the integer behind the
  caller's pointer; the call returns its status and both as it leaves them. A status other
  than \<open>VCARD_DONE\<close> fails the \<open>assert\<close>, so the test after it is always true and the
  copy always runs.\<close>

definition vreader_xfr_bytes ::
  "VCardEmul \<Rightarrow> addr option \<Rightarrow> byte list \<Rightarrow> int \<Rightarrow> byte list \<Rightarrow> int \<Rightarrow> state \<Rightarrow>
   fault + (VReaderStatus \<times> byte list \<times> int) \<times> state" where
  "vreader_xfr_bytes E reader send_buf send_buf_len receive_buf receive_buf_len s =
     (case vreader_get_card reader s of
        Inl f \<Rightarrow> Inl f
      | Inr (cardp, s1) \<Rightarrow>
          (case cardp of
             None \<Rightarrow> Inr ((VREADER_NO_CARD, receive_buf, receive_buf_len), s1)
           | Some c \<Rightarrow>
               (case vcard_apdu_new E send_buf send_buf_len of
                  (apdu, status) \<Rightarrow>
                    (let s2 = ext_call (Vcard_apdu_new send_buf send_buf_len) s1;
                         (card_status, response, s3) =
                           (case apdu of
                              None \<Rightarrow>
                                (VCARD_DONE, vcard_make_response E status,
                                 ext_call (Vcard_make_response status) s2)
                            | Some a \<Rightarrow>
                                (case vcard_process_apdu E c a of
                                   (st, resp) \<Rightarrow>
                                     (st, resp, ext_call (Vcard_process_apdu c a) s2)))
                     in if card_status \<noteq> VCARD_DONE then Inl AssertionFailed
                        else case response of
                          None \<Rightarrow> Inl NullPointer
                        | Some resp \<Rightarrow>
                            (let sz = min receive_buf_len (b_total_len resp)
                             in case memcpy receive_buf (b_data resp) sz of
                                  Inl f \<Rightarrow> Inl f
                                | Inr buf' \<Rightarrow>
                                    Inr ((VREADER_OK, buf', sz),
                                         vcard_free c
                                           (ext_call (Vcard_apdu_delete apdu)
                                              (ext_call (Vcard_response_delete response)
                                                 s3))))))))"


subsection \<open>Registry entries and lists\<close>

definition vreader_list_entry_new :: "addr option \<Rightarrow> state \<Rightarrow> fault + addr option \<times> state" where
  "vreader_list_entry_new reader s =
     (case qemu_malloc s of
        (a, s1) \<Rightarrow>
          (case vreader_reference reader s1 of
             Inl f \<Rightarrow> Inl f
           | Inr (r, s2) \<Rightarrow>
               Inr (Some a,
                    s2\<lparr>entries := (entries s2)(a \<mapsto>
                         \<lparr>next_e = None, prev_e = None, reader_e = r\<rparr>)\<rparr>)))"

definition vreader_list_entry_delete :: "addr option \<Rightarrow> state \<Rightarrow> fault + state" where
  "vreader_list_entry_delete entry s =
     (if entry = None then Inr s
      else case entry_at s entry of
        Inl f \<Rightarrow> Inl f
      | Inr (a, e) \<Rightarrow>
          (case vreader_free (reader_e e) s of
             Inl f \<Rightarrow> Inl f
           | Inr s1 \<Rightarrow> Inr (s1\<lparr>entries := (entries s1)(a := None)\<rparr>)))"

definition vreader_list_new :: "state \<Rightarrow> addr option \<times> state" where
  "vreader_list_new s =
     (case qemu_malloc s of
        (a, s1) \<Rightarrow> (Some a, s1\<lparr>vlists := (vlists s1)(a \<mapsto> \<lparr>head = None, tail = None\<rparr>)\<rparr>))"

definition vreader_list_get_first :: "addr option \<Rightarrow> state \<Rightarrow> fault + addr option" where
  "vreader_list_get_first list s =
     (if list = None then Inr None
      else case list_at s list of Inl f \<Rightarrow> Inl f | Inr (a, l) \<Rightarrow> Inr (head l))"

definition vreader_list_get_next :: "addr option \<Rightarrow> state \<Rightarrow> fault + addr option" where
  "vreader_list_get_next current s =
     (if current = None then Inr None
      else case entry_at s current of Inl f \<Rightarrow> Inl f | Inr (a, e) \<Rightarrow> Inr (next_e e))"

definition vreader_list_get_reader :: "addr option \<Rightarrow> state \<Rightarrow> fault + addr option \<times> state" where
  "vreader_list_get_reader entry s =
     (if entry = None then Inr (None, s)
      else case entry_at s entry of
        Inl f \<Rightarrow> Inl f
      | Inr (a, e) \<Rightarrow> vreader_reference (reader_e e) s)"

definition vreader_queue :: "addr option \<Rightarrow> addr option \<Rightarrow> state \<Rightarrow> fault + state" where
  "vreader_queue list entry s =
     (if entry = None then Inr s
      else case entry_at s entry of
        Inl f \<Rightarrow> Inl f
      | Inr (ea, e) \<Rightarrow>
          (case list_at s list of
             Inl f \<Rightarrow> Inl f
           | Inr (la, l) \<Rightarrow>
               (let s1 = s\<lparr>entries := (entries s)(ea \<mapsto> e\<lparr>next_e := None, prev_e := tail l\<rparr>)\<rparr>
                in if head l \<noteq> None
                   then case entry_at s1 (tail l) of
                     Inl f \<Rightarrow> Inl f
                   | Inr (ta, t) \<Rightarrow>
                       Inr (s1\<lparr>entries := (entries s1)(ta \<mapsto> t\<lparr>next_e := entry\<rparr>),
                               vlists := (vlists s1)(la \<mapsto> l\<lparr>tail := entry\<rparr>)\<rparr>)
                   else Inr (s1\<lparr>vlists := (vlists s1)(la \<mapsto> l\<lparr>head := entry, tail := entry\<rparr>)\<rparr>))))"

text \<open>\<open>vreader_dequeue\<close>, branch by branch as the C has it: a tail entry only moves
  \<open>list->tail\<close>, a head entry only moves \<open>list->head\<close>, an inner entry relinks its two
  neighbours.\<close>

definition vreader_dequeue :: "addr option \<Rightarrow> addr option \<Rightarrow> state \<Rightarrow> fault + state" where
  "vreader_dequeue list entry s =
     (if entry = None then Inr s
      else case entry_at s entry of
        Inl f \<Rightarrow> Inl f
      | Inr (ea, e) \<Rightarrow>
          (case (if next_e e = None
                 then case list_at s list of
                   Inl f \<Rightarrow> Inl f
                 | Inr (la, l) \<Rightarrow> Inr (s\<lparr>vlists := (vlists s)(la \<mapsto> l\<lparr>tail := prev_e e\<rparr>)\<rparr>)
                 else if prev_e e = None
                 then case list_at s list of
                   Inl f \<Rightarrow> Inl f
                 | Inr (la, l) \<Rightarrow> Inr (s\<lparr>vlists := (vlists s)(la \<mapsto> l\<lparr>head := next_e e\<rparr>)\<rparr>)
                 else case entry_at s (prev_e e) of
                   Inl f \<Rightarrow> Inl f
                 | Inr (pa, p) \<Rightarrow>
                     (let s1 = s\<lparr>entries := (entries s)(pa \<mapsto> p\<lparr>next_e := next_e e\<rparr>)\<rparr>
                      in case entry_at s1 entry of
                           Inl f \<Rightarrow> Inl f
                         | Inr (ea1, e1) \<Rightarrow>
                             (case entry_at s1 (next_e e1) of
                                Inl f \<Rightarrow> Inl f
                              | Inr (na, n) \<Rightarrow>
                                  Inr (s1\<lparr>entries := (entries s1)(na \<mapsto>
                                         n\<lparr>prev_e := prev_e e1\<rparr>)\<rparr>)))) of
             Inl f \<Rightarrow> Inl f
           | Inr s2 \<Rightarrow>
               (case list_at s2 list of
                  Inl f \<Rightarrow> Inl f
                | Inr (la, l) \<Rightarrow>
                    (let s3 = (if tail l = None \<or> head l = None
                               then s2\<lparr>vlists := (vlists s2)(la \<mapsto> l\<lparr>head := None, tail := None\<rparr>)\<rparr>
                               else s2)
                     in case entry_at s3 entry of
                          Inl f \<Rightarrow> Inl f
                        | Inr (ea3, e3) \<Rightarrow>
                            Inr (s3\<lparr>entries := (entries s3)(ea3 \<mapsto>
                                   e3\<lparr>next_e := None, prev_e := None\<rparr>)\<rparr>)))))"

subsection \<open>The global registry\<close>

definition vreader_list_init :: "state \<Rightarrow> state" where
  "vreader_list_init s = (case vreader_list_new s of (l, s1) \<Rightarrow> s1\<lparr>vreader_list := l\<rparr>)"

definition vreader_list_lock :: "state \<Rightarrow> state" where
  "vreader_list_lock s = ext_call (Qemu_mutex_lock ListMutex) s"

definition vreader_list_unlock :: "state \<Rightarrow> state" where
  "vreader_list_unlock s = ext_call (Qemu_mutex_unlock ListMutex) s"

text \<open>The loops follow \<open>next\<close> pointers through the heap, so they are partial functions:
  \<open>None\<close> is a walk that never ends.\<close>

partial_function (option) vreader_copy_list_loop ::
  "addr option \<Rightarrow> addr option \<Rightarrow> state \<Rightarrow> (fault + state) option" where
  "vreader_copy_list_loop new_list current_entry s =
     (if current_entry = None then Some (Inr s)
      else case vreader_list_get_reader current_entry s of
        Inl f \<Rightarrow> Some (Inl f)
      | Inr (reader, s1) \<Rightarrow>
          (case vreader_list_entry_new reader s1 of
             Inl f \<Rightarrow> Some (Inl f)
           | Inr (new_entry, s2) \<Rightarrow>
               (case vreader_free reader s2 of
                  Inl f \<Rightarrow> Some (Inl f)
                | Inr s3 \<Rightarrow>
                    (case vreader_queue new_list new_entry s3 of
                       Inl f \<Rightarrow> Some (Inl f)
                     | Inr s4 \<Rightarrow>
                         (case vreader_list_get_next current_entry s4 of
                            Inl f \<Rightarrow> Some (Inl f)
                          | Inr nxt \<Rightarrow> vreader_copy_list_loop new_list nxt s4)))))"

declare vreader_copy_list_loop.simps [code]

definition vreader_copy_list ::
  "addr option \<Rightarrow> state \<Rightarrow> (fault + addr option \<times> state) option" where
  "vreader_copy_list list s =
     (case vreader_list_new s of
        (new_list, s1) \<Rightarrow>
          if new_list = None then Some (Inr (None, s1))
          else case vreader_list_get_first list s1 of
            Inl f \<Rightarrow> Some (Inl f)
          | Inr first \<Rightarrow>
              (case vreader_copy_list_loop new_list first s1 of
                 None \<Rightarrow> None
               | Some (Inl f) \<Rightarrow> Some (Inl f)
               | Some (Inr s2) \<Rightarrow> Some (Inr (new_list, s2))))"

definition vreader_get_reader_list :: "state \<Rightarrow> (fault + addr option \<times> state) option" where
  "vreader_get_reader_list s =
     (case vreader_copy_list (vreader_list s) (vreader_list_lock s) of
        None \<Rightarrow> None
      | Some (Inl f) \<Rightarrow> Some (Inl f)
      | Some (Inr (new_reader_list, s1)) \<Rightarrow> Some (Inr (new_reader_list, vreader_list_unlock s1)))"

partial_function (option) vreader_get_reader_by_id_loop ::
  "vreader_id_t \<Rightarrow> addr option \<Rightarrow> state \<Rightarrow> (fault + addr option \<times> state) option" where
  "vreader_get_reader_by_id_loop ident current_entry s =
     (if current_entry = None then Some (Inr (None, s))
      else case vreader_list_get_reader current_entry s of
        Inl f \<Rightarrow> Some (Inl f)
      | Inr (creader, s1) \<Rightarrow>
          (case reader_at s1 creader of
             Inl f \<Rightarrow> Some (Inl f)
           | Inr (a, r) \<Rightarrow>
               if id_r r = ident then Some (Inr (creader, s1))
               else case vreader_free creader s1 of
                 Inl f \<Rightarrow> Some (Inl f)
               | Inr s2 \<Rightarrow>
                   (case vreader_list_get_next current_entry s2 of
                      Inl f \<Rightarrow> Some (Inl f)
                    | Inr nxt \<Rightarrow> vreader_get_reader_by_id_loop ident nxt s2)))"

declare vreader_get_reader_by_id_loop.simps [code]

definition vreader_get_reader_by_id ::
  "vreader_id_t \<Rightarrow> state \<Rightarrow> (fault + addr option \<times> state) option" where
  "vreader_get_reader_by_id ident s =
     (if ident = - 1 then Some (Inr (None, s))
      else let s1 = vreader_list_lock s
           in case vreader_list_get_first (vreader_list s1) s1 of
                Inl f \<Rightarrow> Some (Inl f)
              | Inr first \<Rightarrow>
                  (case vreader_get_reader_by_id_loop ident first s1 of
                     None \<Rightarrow> None
                   | Some (Inl f) \<Rightarrow> Some (Inl f)
                   | Some (Inr (reader, s2)) \<Rightarrow> Some (Inr (reader, vreader_list_unlock s2))))"

text \<open>\<open>strcmp(a, b) == 0\<close> on C strings: both pointers are read.\<close>

definition strcmp_eq :: "string option \<Rightarrow> string option \<Rightarrow> fault + bool" where
  "strcmp_eq a b =
     (case a of
        None \<Rightarrow> Inl NullPointer
      | Some x \<Rightarrow> (case b of None \<Rightarrow> Inl NullPointer | Some y \<Rightarrow> Inr (x = y)))"

partial_function (option) vreader_get_reader_by_name_loop ::
  "string option \<Rightarrow> addr option \<Rightarrow> state \<Rightarrow> (fault + addr option \<times> state) option" where
  "vreader_get_reader_by_name_loop name current_entry s =
     (if current_entry = None then Some (Inr (None, s))
      else case vreader_list_get_reader current_entry s of
        Inl f \<Rightarrow> Some (Inl f)
      | Inr (creader, s1) \<Rightarrow>
          (case reader_at s1 creader of
             Inl f \<Rightarrow> Some (Inl f)
           | Inr (a, r) \<Rightarrow>
               (case strcmp_eq (name_r r) name of
                  Inl f \<Rightarrow> Some (Inl f)
                | Inr same \<Rightarrow>
                    if same then Some (Inr (creader, s1))
                    else case vreader_free creader s1 of
                      Inl f \<Rightarrow> Some (Inl f)
                    | Inr s2 \<Rightarrow>
                        (case vreader_list_get_next current_entry s2 of
                           Inl f \<Rightarrow> Some (Inl f)
                         | Inr nxt \<Rightarrow> vreader_get_reader_by_name_loop name nxt s2))))"

declare vreader_get_reader_by_name_loop.simps [code]

definition vreader_get_reader_by_name ::
  "string option \<Rightarrow> state \<Rightarrow> (fault + addr option \<times> state) option" where
  "vreader_get_reader_by_name name s =
     (let s1 = vreader_list_lock s
      in case vreader_list_get_first (vreader_list s1) s1 of
           Inl f \<Rightarrow> Some (Inl f)
         | Inr first \<Rightarrow>
             (case vreader_get_reader_by_name_loop name first s1 of
                None \<Rightarrow> None
              | Some (Inl f) \<Rightarrow> Some (Inl f)
              | Some (Inr (reader, s2)) \<Rightarrow> Some (Inr (reader, vreader_list_unlock s2))))"

subsection \<open>Events, registration and card membership\<close>

definition vevent_new :: "VEventType \<Rightarrow> addr option \<Rightarrow> addr option \<Rightarrow> VEvent" where
  "vevent_new ty reader cardp = VEvent ty reader cardp"

text \<open>
  \<open>vevent_queue_vevent\<close> belongs to the event queue, which is not part of this file. The
  four functions that call it take it as their first argument \<open>queue_vevent\<close>: a function
  from the event and the state at the moment of the call to the state after the call. The
  sink is handed the whole state, so it stands for any observer of the event, and what is
  proved for every \<open>queue_vevent\<close> holds whatever the observer reads or does.
\<close>

type_synonym event_sink = "VEvent \<Rightarrow> state \<Rightarrow> state"

text \<open>Modelled from the spec: the sink \<open>vevent_queue_vevent\<close> takes the event,
  fire-and-forget; it records the event in the trace and leaves the heaps alone. The
  theorems that read events off the trace pass this sink.\<close>

definition vevent_queue_vevent :: event_sink where
  "vevent_queue_vevent ev s = ext_call (Vevent_queue_vevent ev) s"

definition vreader_add_reader ::
  "event_sink \<Rightarrow> addr option \<Rightarrow> state \<Rightarrow> fault + VReaderStatus \<times> state" where
  "vreader_add_reader queue_vevent reader s =
     (case vreader_list_entry_new reader s of
        Inl f \<Rightarrow> Inl f
      | Inr (reader_entry, s1) \<Rightarrow>
          if reader_entry = None then Inr (VREADER_OUT_OF_MEMORY, s1)
          else let s2 = vreader_list_lock s1
               in case vreader_queue (vreader_list s2) reader_entry s2 of
                    Inl f \<Rightarrow> Inl f
                  | Inr s3 \<Rightarrow>
                      Inr (VREADER_OK,
                           queue_vevent (vevent_new VEVENT_READER_INSERT reader None)
                             (vreader_list_unlock s3)))"

partial_function (option) vreader_remove_reader_loop ::
  "addr option \<Rightarrow> addr option \<Rightarrow> state \<Rightarrow> (fault + addr option) option" where
  "vreader_remove_reader_loop reader current_entry s =
     (if current_entry = None then Some (Inr None)
      else case entry_at s current_entry of
        Inl f \<Rightarrow> Some (Inl f)
      | Inr (a, e) \<Rightarrow>
          if reader_e e = reader then Some (Inr current_entry)
          else case vreader_list_get_next current_entry s of
            Inl f \<Rightarrow> Some (Inl f)
          | Inr nxt \<Rightarrow> vreader_remove_reader_loop reader nxt s)"

declare vreader_remove_reader_loop.simps [code]

definition vreader_remove_reader ::
  "event_sink \<Rightarrow> addr option \<Rightarrow> state \<Rightarrow> (fault + VReaderStatus \<times> state) option" where
  "vreader_remove_reader queue_vevent reader s =
     (let s1 = vreader_list_lock s
      in case vreader_list_get_first (vreader_list s1) s1 of
           Inl f \<Rightarrow> Some (Inl f)
         | Inr first \<Rightarrow>
             (case vreader_remove_reader_loop reader first s1 of
                None \<Rightarrow> None
              | Some (Inl f) \<Rightarrow> Some (Inl f)
              | Some (Inr current_entry) \<Rightarrow>
                  (case vreader_dequeue (vreader_list s1) current_entry s1 of
                     Inl f \<Rightarrow> Some (Inl f)
                   | Inr s2 \<Rightarrow>
                       (case vreader_list_entry_delete current_entry (vreader_list_unlock s2) of
                          Inl f \<Rightarrow> Some (Inl f)
                        | Inr s3 \<Rightarrow>
                            Some (Inr (VREADER_OK,
                                       queue_vevent
                                         (vevent_new VEVENT_READER_REMOVE reader None) s3))))))"

definition vreader_queue_card_event ::
  "event_sink \<Rightarrow> addr option \<Rightarrow> state \<Rightarrow> fault + state" where
  "vreader_queue_card_event queue_vevent reader s =
     (case reader_at s reader of
        Inl f \<Rightarrow> Inl f
      | Inr (a, r) \<Rightarrow>
          Inr (queue_vevent
                 (vevent_new (if card_r r \<noteq> None then VEVENT_CARD_INSERT else VEVENT_CARD_REMOVE)
                    reader (card_r r)) s))"

definition vreader_insert_card ::
  "event_sink \<Rightarrow> addr option \<Rightarrow> addr option \<Rightarrow> state \<Rightarrow> fault + VReaderStatus \<times> state" where
  "vreader_insert_card queue_vevent reader cardp s =
     (case vreader_lock reader s of
        Inl f \<Rightarrow> Inl f
      | Inr s1 \<Rightarrow>
          (case reader_at s1 reader of
             Inl f \<Rightarrow> Inl f
           | Inr (a, r) \<Rightarrow>
               (let (r2, s2) =
                      (case card_r r of
                         None \<Rightarrow> (r, s1)
                       | Some c \<Rightarrow> (r\<lparr>card_r := None\<rparr>, vcard_free c s1))
                in case vcard_reference cardp s2 of
                     (c', s3) \<Rightarrow>
                       (case vreader_unlock reader
                               (s3\<lparr>readers := (readers s3)(a \<mapsto> r2\<lparr>card_r := c'\<rparr>)\<rparr>) of
                          Inl f \<Rightarrow> Inl f
                        | Inr s4 \<Rightarrow>
                            (case vreader_queue_card_event queue_vevent reader s4 of
                               Inl f \<Rightarrow> Inl f
                             | Inr s5 \<Rightarrow> Inr (VREADER_OK, s5))))))"

definition vreader_init :: "state \<Rightarrow> state" where
  "vreader_init s = vreader_list_init s"

text \<open>The memory before \<open>vreader_init\<close>: nothing allocated, the static \<open>vreader_list\<close>
  still \<open>NULL\<close>.\<close>

definition initial_state :: state where
  "initial_state =
     \<lparr>readers = Map.empty, entries = Map.empty, vlists = Map.empty, vreader_list = None,
      brk = 1, trace = []\<rparr>"


section \<open>Reading the registry off the heap\<close>

text \<open>
  The registry in list form: \<open>registry_chain h p ers\<close> holds when following \<open>next\<close> from
  the pointer \<open>p\<close> through the entry heap \<open>h\<close> visits exactly the entries of \<open>ers\<close>, in
  order, and ends at \<open>NULL\<close>; each element pairs an entry's address with the reader it
  stores.
\<close>

fun registry_chain ::
  "(addr \<rightharpoonup> VReaderListEntryStruct) \<Rightarrow> addr option \<Rightarrow> (addr \<times> addr) list \<Rightarrow> bool" where
  "registry_chain h p [] = (p = None)"
| "registry_chain h p ((e, rd) # rest) =
     (p = Some e \<and>
      (case h e of
         None \<Rightarrow> False
       | Some ent \<Rightarrow> reader_e ent = Some rd \<and> registry_chain h (next_e ent) rest))"

text \<open>A registered reader is live when it is allocated and its count is at least one and
  below \<open>INT_MAX\<close>, so that one more reference can be taken and given back.\<close>

definition live_reader :: "state \<Rightarrow> addr \<Rightarrow> bool" where
  "live_reader s rd =
     (case readers s rd of
        None \<Rightarrow> False
      | Some r \<Rightarrow> 0 < sint (reference_count r) \<and> sint (reference_count r) < 2147483647)"

definition has_id :: "state \<Rightarrow> vreader_id_t \<Rightarrow> addr \<Rightarrow> bool" where
  "has_id s x rd = (case readers s rd of None \<Rightarrow> False | Some r \<Rightarrow> id_r r = x)"

text \<open>The heap after one more counted reference to the reader at \<open>rd\<close>.\<close>

definition add_reference :: "addr \<Rightarrow> state \<Rightarrow> state" where
  "add_reference rd s =
     s\<lparr>readers := (readers s)(rd :=
          map_option (\<lambda>r. r\<lparr>reference_count := reference_count r + 1\<rparr>) (readers s rd))\<rparr>"

text \<open>The readers at which a scan for the name \<open>n\<close> stops: the first whose name is
  \<open>NULL\<close> or equal to \<open>n\<close>.\<close>

definition name_is_absent :: "state \<Rightarrow> addr \<Rightarrow> bool" where
  "name_is_absent s rd = (case readers s rd of None \<Rightarrow> False | Some r \<Rightarrow> name_r r = None)"

definition ends_name_scan :: "state \<Rightarrow> string \<Rightarrow> addr \<Rightarrow> bool" where
  "ends_name_scan s n rd =
     (case readers s rd of
        None \<Rightarrow> False
      | Some r \<Rightarrow> name_r r = None \<or> name_r r = Some n)"

subsection \<open>Concrete states\<close>

text \<open>Two registered readers with ids 5 and 7; the same with the second reader created
  without a name; a single reader holding card 9; and a card layer that rejects commands
  shorter than four bytes with status \<open>0x6700\<close> and answers all others with five bytes.\<close>

definition two_readers :: state where
  "two_readers =
     \<lparr>readers =
        [2 \<mapsto> \<lparr>reference_count = 2, card_r = None, name_r = Some ''A'', id_r = 5,
                reader_private = None, reader_private_free = None\<rparr>,
         3 \<mapsto> \<lparr>reference_count = 2, card_r = None, name_r = Some ''B'', id_r = 7,
                reader_private = None, reader_private_free = None\<rparr>],
      entries =
        [4 \<mapsto> \<lparr>next_e = Some 5, prev_e = None, reader_e = Some 2\<rparr>,
         5 \<mapsto> \<lparr>next_e = None, prev_e = Some 4, reader_e = Some 3\<rparr>],
      vlists = [1 \<mapsto> \<lparr>head = Some 4, tail = Some 5\<rparr>],
      vreader_list = Some 1, brk = 6, trace = []\<rparr>"

definition unnamed_second :: state where
  "unnamed_second =
     \<lparr>readers =
        [2 \<mapsto> \<lparr>reference_count = 2, card_r = None, name_r = Some ''A'', id_r = 5,
                reader_private = None, reader_private_free = None\<rparr>,
         3 \<mapsto> \<lparr>reference_count = 2, card_r = None, name_r = None, id_r = 7,
                reader_private = None, reader_private_free = None\<rparr>],
      entries =
        [4 \<mapsto> \<lparr>next_e = Some 5, prev_e = None, reader_e = Some 2\<rparr>,
         5 \<mapsto> \<lparr>next_e = None, prev_e = Some 4, reader_e = Some 3\<rparr>],
      vlists = [1 \<mapsto> \<lparr>head = Some 4, tail = Some 5\<rparr>],
      vreader_list = Some 1, brk = 6, trace = []\<rparr>"

definition card_in_reader :: state where
  "card_in_reader =
     \<lparr>readers =
        [1 \<mapsto> \<lparr>reference_count = 1, card_r = Some 9, name_r = Some ''r0'', id_r = - 1,
                reader_private = None, reader_private_free = None\<rparr>],
      entries = Map.empty, vlists = Map.empty, vreader_list = None, brk = 2, trace = []\<rparr>"

definition answering_card :: VCardEmul where
  "answering_card =
     \<lparr>vcard_apdu_new =
        (\<lambda>buf n. if n < 4 then (None, 0x6700) else (Some 40, 0)),
      vcard_make_response =
        (\<lambda>w. Some \<lparr>b_data = [ucast (drop_bit 8 w), ucast w], b_total_len = 2\<rparr>),
      vcard_process_apdu =
        (\<lambda>c a. (VCARD_DONE, Some \<lparr>b_data = [1, 2, 3, 0x90, 0], b_total_len = 5\<rparr>)),
      vcard_get_atr = (\<lambda>c buf n. (buf, n))\<rparr>"

section \<open>Evaluation rules\<close>

lemmas model_defs =
  ext_call_def qemu_malloc_def reader_at_def entry_at_def list_at_def vcard_reference_def
  vcard_free_def vreader_lock_def vreader_unlock_def vreader_new_def vreader_reference_def
  vreader_free_def vreader_get_card_def vreader_card_is_present_def vreader_reset_def
  vreader_power_on_def vreader_power_off_def memcpy_def vreader_xfr_bytes_def
  vreader_list_entry_new_def vreader_list_entry_delete_def
  vreader_list_new_def vreader_list_get_first_def vreader_list_get_next_def
  vreader_list_get_reader_def vreader_queue_def vreader_dequeue_def vreader_list_init_def
  vreader_list_lock_def vreader_list_unlock_def vreader_copy_list_def vreader_get_reader_list_def
  vreader_get_reader_by_id_def vreader_get_reader_by_name_def strcmp_eq_def vevent_new_def
  vevent_queue_vevent_def vreader_add_reader_def vreader_remove_reader_def
  vreader_queue_card_event_def vreader_insert_card_def vreader_init_def initial_state_def

lemmas loop_simps =
  vreader_copy_list_loop.simps vreader_get_reader_by_id_loop.simps
  vreader_get_reader_by_name_loop.simps vreader_remove_reader_loop.simps

text \<open>The concrete states are states of the program: the calls below produce them (their
  traces set aside).\<close>

lemma two_readers_reachable:
  "\<exists>s2 s3 s4 s5 s6 s7.
     vreader_new (Some ''A'') None None (vreader_init initial_state) = (Some 2, s2) \<and>
     vreader_new (Some ''B'') None None s2 = (Some 3, s3) \<and>
     vreader_set_id (Some 2) 5 s3 = Inr (VREADER_OK, s4) \<and>
     vreader_set_id (Some 3) 7 s4 = Inr (VREADER_OK, s5) \<and>
     vreader_add_reader vevent_queue_vevent (Some 2) s5 = Inr (VREADER_OK, s6) \<and>
     vreader_add_reader vevent_queue_vevent (Some 3) s6 = Inr (VREADER_OK, s7) \<and>
     s7\<lparr>trace := []\<rparr> = two_readers"
  by (simp add: model_defs vreader_set_id_def two_readers_def Let_def fun_eq_iff)

lemma unnamed_second_reachable:
  "\<exists>s2 s3 s4 s5 s6 s7.
     vreader_new (Some ''A'') None None (vreader_init initial_state) = (Some 2, s2) \<and>
     vreader_new None None None s2 = (Some 3, s3) \<and>
     vreader_set_id (Some 2) 5 s3 = Inr (VREADER_OK, s4) \<and>
     vreader_set_id (Some 3) 7 s4 = Inr (VREADER_OK, s5) \<and>
     vreader_add_reader vevent_queue_vevent (Some 2) s5 = Inr (VREADER_OK, s6) \<and>
     vreader_add_reader vevent_queue_vevent (Some 3) s6 = Inr (VREADER_OK, s7) \<and>
     s7\<lparr>trace := []\<rparr> = unnamed_second"
  by (simp add: model_defs vreader_set_id_def unnamed_second_def Let_def fun_eq_iff)

lemma card_in_reader_reachable:
  "\<exists>s1 s2.
     vreader_new (Some ''r0'') None None initial_state = (Some 1, s1) \<and>
     vreader_insert_card vevent_queue_vevent (Some 1) (Some 9) s1 = Inr (VREADER_OK, s2) \<and>
     s2\<lparr>trace := []\<rparr> = card_in_reader"
  by (simp add: model_defs card_in_reader_def Let_def fun_eq_iff)

section \<open>Basic facts\<close>

lemma vreader_get_card_live:
  "readers s a = Some r \<Longrightarrow>
   vreader_get_card (Some a) s =
     Inr (card_r r,
          s\<lparr>trace := trace s @ [Qemu_mutex_lock (ReaderLock a), Vcard_reference (card_r r),
                                 Qemu_mutex_unlock (ReaderLock a)]\<rparr>)"
  by (simp add: vreader_get_card_def vreader_lock_def vreader_unlock_def reader_at_def
      vcard_reference_def ext_call_def)

lemma vcard_free_trace: "vcard_free c s = s\<lparr>trace := trace s @ [Vcard_free c]\<rparr>"
  by (simp add: vcard_free_def ext_call_def)

lemma sint_succ:
  fixes w :: "32 word"
  assumes "sint w < 2147483647"
  shows "sint (w + 1) = sint w + 1"
proof -
  have "- (2 ^ 31) \<le> sint w" using sint_ge [of w] by simp
  then show ?thesis using assms
    by (simp add: sint_word_ariths signed_take_bit_int_eq_self)
qed

lemma reference_live:
  assumes "readers s rd = Some r"
  shows "vreader_reference (Some rd) s =
           Inr (Some rd,
                s\<lparr>readers := (readers s)(rd \<mapsto> r\<lparr>reference_count := reference_count r + 1\<rparr>),
                  trace := trace s @
                    [Qemu_mutex_lock (ReaderLock rd), Qemu_mutex_unlock (ReaderLock rd)]\<rparr>)"
  using assms
  by (simp add: vreader_reference_def vreader_lock_def vreader_unlock_def reader_at_def
      ext_call_def)

lemma reference_then_free:
  assumes r: "readers s rd = Some r"
    and lo: "0 < sint (reference_count r)" and hi: "sint (reference_count r) < 2147483647"
    and s1: "s1 = s\<lparr>readers := (readers s)(rd \<mapsto> r\<lparr>reference_count := reference_count r + 1\<rparr>),
                  trace := trace s @
                    [Qemu_mutex_lock (ReaderLock rd), Qemu_mutex_unlock (ReaderLock rd)]\<rparr>"
  shows "vreader_free (Some rd) s1 =
           Inr (s\<lparr>trace := trace s @
                  [Qemu_mutex_lock (ReaderLock rd), Qemu_mutex_unlock (ReaderLock rd),
                   Qemu_mutex_lock (ReaderLock rd), Qemu_mutex_unlock (ReaderLock rd)]\<rparr>)"
proof -
  have "1 < sint (reference_count r + 1)" using lo sint_succ [OF hi] by simp
  moreover have "(readers s)(rd \<mapsto> r) = readers s" using r by (simp add: map_upd_triv)
  ultimately show ?thesis
    unfolding s1 using r
    by (simp add: vreader_free_def vreader_lock_def vreader_unlock_def reader_at_def
        ext_call_def)
qed

section \<open>Reference counting\<close>

text \<open>
  C6. \<open>vreader_reference\<close> on \<open>NULL\<close> returns \<open>NULL\<close> and changes nothing; on a live reader
  it adds one to the count (under the reader's lock) and returns the same pointer.
  \<open>vreader_free\<close> on \<open>NULL\<close> changes nothing; when the count after the decrement is above
  zero only the count changes; when it is zero the card reference is released (if there is a
  card), the name is freed (if there is one), the private-data release function is called
  once (if there is one) and the reader leaves the heap.
\<close>

theorem vreader_reference_free:
  assumes live: "readers s a = Some r"
  shows
    "vreader_reference None s = Inr (None, s) \<and>
     vreader_reference (Some a) s =
       Inr (Some a,
            s\<lparr>readers := (readers s)(a \<mapsto> r\<lparr>reference_count := reference_count r + 1\<rparr>),
              trace := trace s @
                [Qemu_mutex_lock (ReaderLock a), Qemu_mutex_unlock (ReaderLock a)]\<rparr>) \<and>
     vreader_free None s = Inr s \<and>
     (0 < sint (reference_count r) - 1 \<longrightarrow>
        vreader_free (Some a) s =
          Inr (s\<lparr>readers := (readers s)(a \<mapsto> r\<lparr>reference_count := reference_count r - 1\<rparr>),
                 trace := trace s @
                   [Qemu_mutex_lock (ReaderLock a), Qemu_mutex_unlock (ReaderLock a)]\<rparr>)) \<and>
     (sint (reference_count r) - 1 = 0 \<longrightarrow>
        vreader_free (Some a) s =
          Inr (s\<lparr>readers := (readers s)(a := None),
                 trace := trace s @
                   [Qemu_mutex_lock (ReaderLock a), Qemu_mutex_unlock (ReaderLock a)] @
                   (case card_r r of None \<Rightarrow> [] | Some c \<Rightarrow> [Vcard_free c]) @
                   (case name_r r of None \<Rightarrow> [] | Some n \<Rightarrow> [Qemu_free_name n]) @
                   (case reader_private_free r of None \<Rightarrow> []
                    | Some f \<Rightarrow> [Reader_private_free f (reader_private r)])\<rparr>))"
proof -
  have ref0: "vreader_reference None s = Inr (None, s)"
    by (simp add: vreader_reference_def)
  have ref1: "vreader_reference (Some a) s =
       Inr (Some a,
            s\<lparr>readers := (readers s)(a \<mapsto> r\<lparr>reference_count := reference_count r + 1\<rparr>),
              trace := trace s @
                [Qemu_mutex_lock (ReaderLock a), Qemu_mutex_unlock (ReaderLock a)]\<rparr>)"
    using live
    by (simp add: vreader_reference_def vreader_lock_def vreader_unlock_def reader_at_def
        ext_call_def)
  have free0: "vreader_free None s = Inr s"
    by (simp add: vreader_free_def)
  have free1: "vreader_free (Some a) s =
          Inr (s\<lparr>readers := (readers s)(a \<mapsto> r\<lparr>reference_count := reference_count r - 1\<rparr>),
                 trace := trace s @
                   [Qemu_mutex_lock (ReaderLock a), Qemu_mutex_unlock (ReaderLock a)]\<rparr>)"
    if "0 < sint (reference_count r) - 1"
    using live that
    by (simp add: vreader_free_def vreader_lock_def vreader_unlock_def reader_at_def
        ext_call_def)
  have free2: "vreader_free (Some a) s =
          Inr (s\<lparr>readers := (readers s)(a := None),
                 trace := trace s @
                   [Qemu_mutex_lock (ReaderLock a), Qemu_mutex_unlock (ReaderLock a)] @
                   (case card_r r of None \<Rightarrow> [] | Some c \<Rightarrow> [Vcard_free c]) @
                   (case name_r r of None \<Rightarrow> [] | Some n \<Rightarrow> [Qemu_free_name n]) @
                   (case reader_private_free r of None \<Rightarrow> []
                    | Some f \<Rightarrow> [Reader_private_free f (reader_private r)])\<rparr>)"
    if "sint (reference_count r) - 1 = 0"
    using live that
    by (simp add: vreader_free_def vreader_lock_def vreader_unlock_def reader_at_def
        ext_call_def vcard_free_def Let_def split: option.splits)
  from ref0 ref1 free0 free1 free2 show ?thesis by blast
qed

text \<open>The theorem at a reader fresh from \<open>vreader_new\<close> (count one, a name and a release
  function): one reference and one release bring it back, the release of the last reference
  tears it down.\<close>

theorem vreader_reference_free_witness:
  "(let s1 = snd (vreader_new (Some ''r0'') (Some 7) (Some 8) initial_state);
        r1 = \<lparr>reference_count = 1, card_r = None, name_r = Some ''r0'', id_r = - 1,
              reader_private = Some 7, reader_private_free = Some 8\<rparr>;
        s2 = s1\<lparr>readers := (readers s1)(1 \<mapsto> r1\<lparr>reference_count := 2\<rparr>),
               trace := [Qemu_mutex_lock (ReaderLock 1), Qemu_mutex_unlock (ReaderLock 1)]\<rparr>
    in readers s1 1 = Some r1 \<and>
       sint (reference_count r1) - 1 = 0 \<and>
       vreader_reference (Some 1) s1 = Inr (Some 1, s2) \<and>
       readers s2 1 = Some (r1\<lparr>reference_count := 2\<rparr>) \<and>
       0 < sint (reference_count (r1\<lparr>reference_count := 2\<rparr>)) - 1 \<and>
       vreader_free (Some 1) s2 =
         Inr (s1\<lparr>trace := [Qemu_mutex_lock (ReaderLock 1), Qemu_mutex_unlock (ReaderLock 1),
                            Qemu_mutex_lock (ReaderLock 1), Qemu_mutex_unlock (ReaderLock 1)]\<rparr>) \<and>
       vreader_free (Some 1) s1 =
         Inr (s1\<lparr>readers := Map.empty,
                 trace := [Qemu_mutex_lock (ReaderLock 1), Qemu_mutex_unlock (ReaderLock 1),
                           Qemu_free_name ''r0'', Reader_private_free 8 (Some 7)]\<rparr>))"
proof -
  define s1 where "s1 = snd (vreader_new (Some ''r0'') (Some 7) (Some 8) initial_state)"
  define r1 where "r1 = \<lparr>reference_count = 1, card_r = None, name_r = Some ''r0'', id_r = - 1,
              reader_private = Some 7, reader_private_free = Some 8\<rparr>"
  define s2 where "s2 = s1\<lparr>readers := (readers s1)(1 \<mapsto> r1\<lparr>reference_count := 2\<rparr>),
               trace := [Qemu_mutex_lock (ReaderLock 1), Qemu_mutex_unlock (ReaderLock 1)]\<rparr>"
  have s1: "s1 = \<lparr>readers = [1 \<mapsto> r1], entries = Map.empty, vlists = Map.empty,
                  vreader_list = None, brk = 2, trace = []\<rparr>"
    by (simp add: s1_def r1_def vreader_new_def qemu_malloc_def initial_state_def)
  have a: "readers s1 1 = Some r1" by (simp add: s1)
  have b: "readers s2 1 = Some (r1\<lparr>reference_count := 2\<rparr>)" by (simp add: s2_def)
  have c: "sint (reference_count r1) - 1 = 0" by (simp add: r1_def)
  have d: "0 < sint (reference_count (r1\<lparr>reference_count := 2\<rparr>)) - 1" by simp
  show ?thesis
    using vreader_reference_free [OF a] vreader_reference_free [OF b] a b c d
    unfolding Let_def s1_def [symmetric] r1_def [symmetric] s2_def [symmetric]
    by (simp add: s1 s2_def r1_def)
qed

section \<open>Registry order\<close>

text \<open>
  C1. The registry should hold, after any adds and removes, exactly the readers added and not
  removed. \<open>vreader_dequeue\<close> does not do that for the last entry of a longer list: it
  moves \<open>list->tail\<close> and leaves the \<open>next\<close> pointer of the entry before it in place.
  Registering readers A and B and removing B leaves A's entry (address 4) pointing at B's
  entry (address 5), which \<open>vreader_list_entry_delete\<close> has freed; the next snapshot and the
  next lookup by id walk from A's entry into the freed one.
\<close>

theorem remove_tail_keeps_link:
  "\<exists>s2 s3 s4 s5 s6.
     vreader_new (Some ''A'') None None (vreader_init initial_state) = (Some 2, s2) \<and>
     vreader_new (Some ''B'') None None s2 = (Some 3, s3) \<and>
     vreader_add_reader vevent_queue_vevent (Some 2) s3 = Inr (VREADER_OK, s4) \<and>
     vreader_add_reader vevent_queue_vevent (Some 3) s4 = Inr (VREADER_OK, s5) \<and>
     vreader_remove_reader vevent_queue_vevent (Some 3) s5 = Some (Inr (VREADER_OK, s6)) \<and>
     vlists s6 1 = Some \<lparr>head = Some 4, tail = Some 4\<rparr> \<and>
     entries s6 4 = Some \<lparr>next_e = Some 5, prev_e = None, reader_e = Some 2\<rparr> \<and>
     entries s6 5 = None \<and>
     vreader_get_reader_list s6 = Some (Inl DanglingPointer) \<and>
     vreader_get_reader_by_id 7 s6 = Some (Inl DanglingPointer)"
  by (simp add: model_defs loop_simps Let_def)

section \<open>Card references\<close>

text \<open>
  C2. Every use of a reader's card outside the reader's lock should go through a counted
  reference taken under that lock, as \<open>vreader_get_card\<close> does. \<open>vreader_queue_card_event\<close>
  does not: on a reader holding card 9 it reads \<open>reader->card\<close> and hands the stored pointer
  to the event without taking the lock or a reference (its trace is the event alone), while
  \<open>vreader_card_is_present\<close> on the same state locks, takes the reference, unlocks and gives
  the reference back.
\<close>

theorem queue_card_event_unlocked:
  "\<exists>s1 s2.
     vreader_queue_card_event vevent_queue_vevent (Some 1) card_in_reader = Inr s1 \<and>
     trace s1 = [Vevent_queue_vevent (VEvent VEVENT_CARD_INSERT (Some 1) (Some 9))] \<and>
     vreader_card_is_present (Some 1) card_in_reader = Inr (VREADER_OK, s2) \<and>
     trace s2 = [Qemu_mutex_lock (ReaderLock 1), Vcard_reference (Some 9),
                 Qemu_mutex_unlock (ReaderLock 1), Vcard_free 9]"
  by (simp add: model_defs card_in_reader_def)

section \<open>Transmit\<close>

text \<open>
  C3. With a card present, a response \<open>resp\<close> of natural length \<open>r\<close> (from the card's
  processor, or synthesized when the command does not parse) and a receive buffer of capacity
  \<open>cap\<close>, \<open>vreader_xfr_bytes\<close> returns \<open>VREADER_OK\<close>, leaves the first \<open>min cap r\<close> bytes of
  the response at the start of the buffer and the rest of the buffer as it was, stores
  \<open>min cap r\<close> as the length, and deletes the response, deletes the command and releases
  its card reference, in this order, before it returns.
\<close>

theorem xfr_bytes_truncates:
  assumes live: "readers s a = Some r"
    and present: "card_r r = Some c"
    and parsed: "vcard_apdu_new E send_buf send_buf_len = (apdu, st)"
    and answer: "(case apdu of
                    None \<Rightarrow> (VCARD_DONE, vcard_make_response E st)
                  | Some ap \<Rightarrow> vcard_process_apdu E c ap) = (VCARD_DONE, Some resp)"
    and natural: "b_total_len resp = int (length (b_data resp))"
    and cap: "0 \<le> cap" "cap \<le> int (length receive_buf)"
  shows
    "vreader_xfr_bytes E (Some a) send_buf send_buf_len receive_buf cap s =
       Inr ((VREADER_OK,
             take (nat (min cap (b_total_len resp))) (b_data resp) @
             drop (nat (min cap (b_total_len resp))) receive_buf,
             min cap (b_total_len resp)),
            s\<lparr>trace := trace s @
              [Qemu_mutex_lock (ReaderLock a), Vcard_reference (Some c),
               Qemu_mutex_unlock (ReaderLock a),
               Vcard_apdu_new send_buf send_buf_len,
               (case apdu of None \<Rightarrow> Vcard_make_response st
                | Some ap \<Rightarrow> Vcard_process_apdu c ap),
               Vcard_response_delete (Some resp), Vcard_apdu_delete apdu, Vcard_free c]\<rparr>)"
proof -
  let ?n = "min cap (b_total_len resp)"
  have copy: "memcpy receive_buf (b_data resp) ?n =
                Inr (take (nat ?n) (b_data resp) @ drop (nat ?n) receive_buf)"
    using natural cap by (simp add: memcpy_def min_def)
  show ?thesis
  proof (cases apdu)
    case None
    with answer have "vcard_make_response E st = Some resp" by simp
    with None parsed present copy show ?thesis
      by (simp add: vreader_xfr_bytes_def vreader_get_card_live [OF live] Let_def
          vcard_free_trace ext_call_def)
  next
    case (Some ap)
    with answer have "vcard_process_apdu E c ap = (VCARD_DONE, Some resp)" by simp
    with Some parsed present copy show ?thesis
      by (simp add: vreader_xfr_bytes_def vreader_get_card_live [OF live] Let_def
          vcard_free_trace ext_call_def)
  qed
qed

text \<open>The theorem at the reader holding card 9, for a five-byte response: a buffer of
  capacity three receives three bytes, a buffer of capacity six receives all five.\<close>

theorem xfr_bytes_truncates_witness:
  "readers card_in_reader 1 =
     Some \<lparr>reference_count = 1, card_r = Some 9, name_r = Some ''r0'', id_r = - 1,
           reader_private = None, reader_private_free = None\<rparr> \<and>
   vcard_apdu_new answering_card [0, 0xA4, 4, 0] 4 = (Some 40, 0) \<and>
   vcard_process_apdu answering_card 9 40 =
     (VCARD_DONE, Some \<lparr>b_data = [1, 2, 3, 0x90, 0], b_total_len = 5\<rparr>) \<and>
   vreader_xfr_bytes answering_card (Some 1) [0, 0xA4, 4, 0] 4 [7, 7, 7, 7] 3 card_in_reader =
     Inr ((VREADER_OK, [1, 2, 3, 7], 3),
          card_in_reader\<lparr>trace :=
            [Qemu_mutex_lock (ReaderLock 1), Vcard_reference (Some 9),
             Qemu_mutex_unlock (ReaderLock 1), Vcard_apdu_new [0, 0xA4, 4, 0] 4,
             Vcard_process_apdu 9 40,
             Vcard_response_delete (Some \<lparr>b_data = [1, 2, 3, 0x90, 0], b_total_len = 5\<rparr>),
             Vcard_apdu_delete (Some 40), Vcard_free 9]\<rparr>) \<and>
   vreader_xfr_bytes answering_card (Some 1) [0, 0xA4, 4, 0] 4 [7, 7, 7, 7, 7, 7] 6
       card_in_reader =
     Inr ((VREADER_OK, [1, 2, 3, 0x90, 0, 7], 5),
          card_in_reader\<lparr>trace :=
            [Qemu_mutex_lock (ReaderLock 1), Vcard_reference (Some 9),
             Qemu_mutex_unlock (ReaderLock 1), Vcard_apdu_new [0, 0xA4, 4, 0] 4,
             Vcard_process_apdu 9 40,
             Vcard_response_delete (Some \<lparr>b_data = [1, 2, 3, 0x90, 0], b_total_len = 5\<rparr>),
             Vcard_apdu_delete (Some 40), Vcard_free 9]\<rparr>)"
proof -
  let ?r = "\<lparr>reference_count = 1, card_r = Some 9, name_r = Some ''r0'', id_r = - 1,
             reader_private = None, reader_private_free = None\<rparr>"
  let ?resp = "\<lparr>b_data = [1, 2, 3, 0x90, 0 :: byte], b_total_len = 5\<rparr>"
  have live: "readers card_in_reader 1 = Some ?r" by (simp add: card_in_reader_def)
  have present: "card_r ?r = Some 9" by simp
  have parsed: "vcard_apdu_new answering_card [0, 0xA4, 4, 0] 4 = (Some 40, 0)"
    by (simp add: answering_card_def)
  have proc: "vcard_process_apdu answering_card 9 40 = (VCARD_DONE, Some ?resp)"
    by (simp add: answering_card_def)
  have answer: "(case Some 40 of
                   None \<Rightarrow> (VCARD_DONE, vcard_make_response answering_card 0)
                 | Some ap \<Rightarrow> vcard_process_apdu answering_card 9 ap) = (VCARD_DONE, Some ?resp)"
    using proc by simp
  have natural: "b_total_len ?resp = int (length (b_data ?resp))" by simp
  have t0: "trace card_in_reader = []" by (simp add: card_in_reader_def)
  have small: "vreader_xfr_bytes answering_card (Some 1) [0, 0xA4, 4, 0] 4 [7, 7, 7, 7] 3
                 card_in_reader =
     Inr ((VREADER_OK, [1, 2, 3, 7], 3),
          card_in_reader\<lparr>trace :=
            [Qemu_mutex_lock (ReaderLock 1), Vcard_reference (Some 9),
             Qemu_mutex_unlock (ReaderLock 1), Vcard_apdu_new [0, 0xA4, 4, 0] 4,
             Vcard_process_apdu 9 40, Vcard_response_delete (Some ?resp),
             Vcard_apdu_delete (Some 40), Vcard_free 9]\<rparr>)"
    using xfr_bytes_truncates [OF live present parsed answer natural,
        of 3 "[7, 7, 7, 7]"]
    by (simp add: t0)
  have large: "vreader_xfr_bytes answering_card (Some 1) [0, 0xA4, 4, 0] 4 [7, 7, 7, 7, 7, 7] 6
                 card_in_reader =
     Inr ((VREADER_OK, [1, 2, 3, 0x90, 0, 7], 5),
          card_in_reader\<lparr>trace :=
            [Qemu_mutex_lock (ReaderLock 1), Vcard_reference (Some 9),
             Qemu_mutex_unlock (ReaderLock 1), Vcard_apdu_new [0, 0xA4, 4, 0] 4,
             Vcard_process_apdu 9 40, Vcard_response_delete (Some ?resp),
             Vcard_apdu_delete (Some 40), Vcard_free 9]\<rparr>)"
    using xfr_bytes_truncates [OF live present parsed answer natural,
        of 6 "[7, 7, 7, 7, 7, 7]"]
    by (simp add: t0)
  from live parsed proc small large show ?thesis by simp
qed

text \<open>
  C4. When the send bytes do not parse (\<open>vcard_apdu_new\<close> returns \<open>NULL\<close> and a status
  word), the call does not fail: the response is the one \<open>vcard_make_response\<close> builds from
  the parser's status word, it is truncated by the same rule, and the call returns
  \<open>VREADER_OK\<close>.
\<close>

theorem xfr_bytes_parse_failure:
  assumes live: "readers s a = Some r"
    and present: "card_r r = Some c"
    and parsed: "vcard_apdu_new E send_buf send_buf_len = (None, st)"
    and synth: "vcard_make_response E st = Some resp"
    and natural: "b_total_len resp = int (length (b_data resp))"
    and cap: "0 \<le> cap" "cap \<le> int (length receive_buf)"
  shows
    "vreader_xfr_bytes E (Some a) send_buf send_buf_len receive_buf cap s =
       Inr ((VREADER_OK,
             take (nat (min cap (b_total_len resp))) (b_data resp) @
             drop (nat (min cap (b_total_len resp))) receive_buf,
             min cap (b_total_len resp)),
            s\<lparr>trace := trace s @
              [Qemu_mutex_lock (ReaderLock a), Vcard_reference (Some c),
               Qemu_mutex_unlock (ReaderLock a),
               Vcard_apdu_new send_buf send_buf_len, Vcard_make_response st,
               Vcard_response_delete (Some resp), Vcard_apdu_delete None, Vcard_free c]\<rparr>)"
proof -
  let ?n = "min cap (b_total_len resp)"
  have copy: "memcpy receive_buf (b_data resp) ?n =
                Inr (take (nat ?n) (b_data resp) @ drop (nat ?n) receive_buf)"
    using natural cap by (simp add: memcpy_def min_def)
  from parsed synth present copy show ?thesis
    by (simp add: vreader_xfr_bytes_def vreader_get_card_live [OF live] Let_def
        vcard_free_trace ext_call_def)
qed

text \<open>The theorem at the reader holding card 9 and a two-byte command, which the parser
  rejects with status \<open>0x6700\<close>: a buffer of capacity one receives the first byte of the
  synthesized response.\<close>

theorem xfr_bytes_parse_failure_witness:
  "readers card_in_reader 1 =
     Some \<lparr>reference_count = 1, card_r = Some 9, name_r = Some ''r0'', id_r = - 1,
           reader_private = None, reader_private_free = None\<rparr> \<and>
   vcard_apdu_new answering_card [0, 0xA4] 2 = (None, 0x6700) \<and>
   vcard_make_response answering_card 0x6700 =
     Some \<lparr>b_data = [0x67, 0], b_total_len = 2\<rparr> \<and>
   vreader_xfr_bytes answering_card (Some 1) [0, 0xA4] 2 [7, 7, 7, 7] 1 card_in_reader =
     Inr ((VREADER_OK, [0x67, 7, 7, 7], 1),
          card_in_reader\<lparr>trace :=
            [Qemu_mutex_lock (ReaderLock 1), Vcard_reference (Some 9),
             Qemu_mutex_unlock (ReaderLock 1), Vcard_apdu_new [0, 0xA4] 2,
             Vcard_make_response 0x6700,
             Vcard_response_delete (Some \<lparr>b_data = [0x67, 0], b_total_len = 2\<rparr>),
             Vcard_apdu_delete None, Vcard_free 9]\<rparr>)"
proof -
  let ?r = "\<lparr>reference_count = 1, card_r = Some 9, name_r = Some ''r0'', id_r = - 1,
             reader_private = None, reader_private_free = None\<rparr>"
  let ?resp = "\<lparr>b_data = [0x67, 0 :: byte], b_total_len = 2\<rparr>"
  have live: "readers card_in_reader 1 = Some ?r" by (simp add: card_in_reader_def)
  have present: "card_r ?r = Some 9" by simp
  have parsed: "vcard_apdu_new answering_card [0, 0xA4] 2 = (None, 0x6700)"
    by (simp add: answering_card_def)
  have synth: "vcard_make_response answering_card 0x6700 = Some ?resp"
    by (simp add: answering_card_def)
  have natural: "b_total_len ?resp = int (length (b_data ?resp))" by simp
  have t0: "trace card_in_reader = []" by (simp add: card_in_reader_def)
  have "vreader_xfr_bytes answering_card (Some 1) [0, 0xA4] 2 [7, 7, 7, 7] 1 card_in_reader =
     Inr ((VREADER_OK, [0x67, 7, 7, 7], 1),
          card_in_reader\<lparr>trace :=
            [Qemu_mutex_lock (ReaderLock 1), Vcard_reference (Some 9),
             Qemu_mutex_unlock (ReaderLock 1), Vcard_apdu_new [0, 0xA4] 2,
             Vcard_make_response 0x6700, Vcard_response_delete (Some ?resp),
             Vcard_apdu_delete None, Vcard_free 9]\<rparr>)"
    using xfr_bytes_parse_failure [OF live present parsed synth natural, of 1 "[7, 7, 7, 7]"]
    by (simp add: t0)
  with live parsed synth show ?thesis by simp
qed

section \<open>No card\<close>

text \<open>
  C5. On a reader without a card, \<open>vreader_power_on\<close> returns \<open>VREADER_NO_CARD\<close> and leaves
  the ATR buffer and its length as they were, and \<open>vreader_xfr_bytes\<close> returns
  \<open>VREADER_NO_CARD\<close> and leaves the receive buffer and its length as they were.
\<close>

theorem no_card_outputs_untouched:
  assumes live: "readers s a = Some r" and absent: "card_r r = None"
  shows
    "vreader_power_on E (Some a) atr len s =
       Inr ((VREADER_NO_CARD, atr, len),
            s\<lparr>trace := trace s @ [Qemu_mutex_lock (ReaderLock a), Vcard_reference None,
                                   Qemu_mutex_unlock (ReaderLock a)]\<rparr>) \<and>
     vreader_xfr_bytes E (Some a) send_buf send_buf_len receive_buf receive_buf_len s =
       Inr ((VREADER_NO_CARD, receive_buf, receive_buf_len),
            s\<lparr>trace := trace s @ [Qemu_mutex_lock (ReaderLock a), Vcard_reference None,
                                   Qemu_mutex_unlock (ReaderLock a)]\<rparr>)"
  using absent
  by (simp add: vreader_power_on_def vreader_reset_def vreader_xfr_bytes_def
      vreader_get_card_live [OF live])

text \<open>The theorem at a reader fresh from \<open>vreader_new\<close>, which holds no card.\<close>

theorem no_card_outputs_untouched_witness:
  "(let s1 = snd (vreader_new (Some ''r0'') None None initial_state);
        r1 = \<lparr>reference_count = 1, card_r = None, name_r = Some ''r0'', id_r = - 1,
              reader_private = None, reader_private_free = None\<rparr>;
        E = \<lparr>vcard_apdu_new = (\<lambda>b n. (None, 0x6700)),
             vcard_make_response = (\<lambda>w. None),
             vcard_process_apdu = (\<lambda>c a. (VCARD_FAIL, None)),
             vcard_get_atr = (\<lambda>c b n. (b, n))\<rparr>;
        t = [Qemu_mutex_lock (ReaderLock 1), Vcard_reference None,
             Qemu_mutex_unlock (ReaderLock 1)]
    in readers s1 1 = Some r1 \<and> card_r r1 = None \<and>
       vreader_power_on E (Some 1) (Some [1, 2, 3]) (Some 3) s1 =
         Inr ((VREADER_NO_CARD, Some [1, 2, 3], Some 3), s1\<lparr>trace := t\<rparr>) \<and>
       vreader_xfr_bytes E (Some 1) [0, 0xA4] 2 [9, 9, 9, 9] 4 s1 =
         Inr ((VREADER_NO_CARD, [9, 9, 9, 9], 4), s1\<lparr>trace := t\<rparr>))"
proof -
  define s1 where "s1 = snd (vreader_new (Some ''r0'') None None initial_state)"
  define r1 where "r1 = \<lparr>reference_count = 1, card_r = None, name_r = Some ''r0'', id_r = - 1,
              reader_private = None, reader_private_free = None\<rparr>"
  have s1: "s1 = \<lparr>readers = [1 \<mapsto> r1], entries = Map.empty, vlists = Map.empty,
                  vreader_list = None, brk = 2, trace = []\<rparr>"
    by (simp add: s1_def r1_def vreader_new_def qemu_malloc_def initial_state_def)
  have a: "readers s1 1 = Some r1" by (simp add: s1)
  have b: "card_r r1 = None" by (simp add: r1_def)
  show ?thesis
    using no_card_outputs_untouched [OF a b] a b
    unfolding Let_def s1_def [symmetric] r1_def [symmetric]
    by (simp add: s1)
qed

section \<open>Card membership\<close>

text \<open>
  C7. Two calls of \<open>vreader_insert_card\<close> with no card, one after the other: each returns
  \<open>VREADER_OK\<close>, each queues a card-removed event for the reader, after each the reader
  holds no card and \<open>vreader_card_is_present\<close> answers \<open>VREADER_NO_CARD\<close>; the second call
  changes nothing but the trace.
\<close>

theorem insert_absent_twice:
  assumes live: "readers s a = Some r"
  shows
    "\<exists>s1 s2.
       vreader_insert_card vevent_queue_vevent (Some a) None s = Inr (VREADER_OK, s1) \<and>
       s1 = s\<lparr>readers := (readers s)(a \<mapsto> r\<lparr>card_r := None\<rparr>),
              trace := trace s @ [Qemu_mutex_lock (ReaderLock a)] @
                (case card_r r of None \<Rightarrow> [] | Some c \<Rightarrow> [Vcard_free c]) @
                [Vcard_reference None, Qemu_mutex_unlock (ReaderLock a),
                 Vevent_queue_vevent (VEvent VEVENT_CARD_REMOVE (Some a) None)]\<rparr> \<and>
       vreader_card_is_present (Some a) s1 =
         Inr (VREADER_NO_CARD,
              s1\<lparr>trace := trace s1 @ [Qemu_mutex_lock (ReaderLock a), Vcard_reference None,
                                       Qemu_mutex_unlock (ReaderLock a)]\<rparr>) \<and>
       vreader_insert_card vevent_queue_vevent (Some a) None s1 = Inr (VREADER_OK, s2) \<and>
       s2 = s1\<lparr>trace := trace s1 @
                [Qemu_mutex_lock (ReaderLock a), Vcard_reference None,
                 Qemu_mutex_unlock (ReaderLock a),
                 Vevent_queue_vevent (VEvent VEVENT_CARD_REMOVE (Some a) None)]\<rparr> \<and>
       vreader_card_is_present (Some a) s2 =
         Inr (VREADER_NO_CARD,
              s2\<lparr>trace := trace s2 @ [Qemu_mutex_lock (ReaderLock a), Vcard_reference None,
                                       Qemu_mutex_unlock (ReaderLock a)]\<rparr>)"
  using live
  by (simp add: vreader_insert_card_def vreader_card_is_present_def vreader_get_card_def
      vreader_queue_card_event_def vevent_queue_vevent_def vevent_new_def
      vreader_lock_def vreader_unlock_def reader_at_def vcard_reference_def vcard_free_def
      ext_call_def Let_def split: option.splits)

text \<open>The theorem at a reader holding card 9: the first call gives the card's reference
  back, the second finds no card; both queue the card-removed event.\<close>

theorem insert_absent_twice_witness:
  "(let r1 = \<lparr>reference_count = 1, card_r = Some 9, name_r = Some ''r0'', id_r = - 1,
              reader_private = None, reader_private_free = None\<rparr>;
        s = \<lparr>readers = [1 \<mapsto> r1], entries = Map.empty, vlists = Map.empty,
             vreader_list = None, brk = 2, trace = []\<rparr>;
        t1 = [Qemu_mutex_lock (ReaderLock 1), Vcard_free 9, Vcard_reference None,
              Qemu_mutex_unlock (ReaderLock 1),
              Vevent_queue_vevent (VEvent VEVENT_CARD_REMOVE (Some 1) None)];
        t2 = [Qemu_mutex_lock (ReaderLock 1), Vcard_reference None,
              Qemu_mutex_unlock (ReaderLock 1),
              Vevent_queue_vevent (VEvent VEVENT_CARD_REMOVE (Some 1) None)];
        s1 = s\<lparr>readers := [1 \<mapsto> r1\<lparr>card_r := None\<rparr>], trace := t1\<rparr>;
        s2 = s1\<lparr>trace := t1 @ t2\<rparr>
    in readers s 1 = Some r1 \<and>
       vreader_insert_card vevent_queue_vevent (Some 1) None s = Inr (VREADER_OK, s1) \<and>
       (\<exists>u. vreader_card_is_present (Some 1) s1 = Inr (VREADER_NO_CARD, u)) \<and>
       vreader_insert_card vevent_queue_vevent (Some 1) None s1 = Inr (VREADER_OK, s2) \<and>
       (\<exists>u. vreader_card_is_present (Some 1) s2 = Inr (VREADER_NO_CARD, u)))"
proof -
  define r1 where "r1 = \<lparr>reference_count = 1, card_r = Some 9, name_r = Some ''r0'', id_r = - 1,
              reader_private = None, reader_private_free = None\<rparr>"
  define s where "s = \<lparr>readers = [1 \<mapsto> r1], entries = Map.empty, vlists = Map.empty,
             vreader_list = None, brk = 2, trace = []\<rparr>"
  have a: "readers s 1 = Some r1" by (simp add: s_def)
  have c: "card_r r1 = Some 9" by (simp add: r1_def)
  show ?thesis
    using insert_absent_twice [OF a] a
    unfolding Let_def r1_def [symmetric] s_def [symmetric]
    by (auto simp add: c s_def)
qed

section \<open>Lookup by id\<close>

lemma by_id_loop_scan:
  assumes "registry_chain (entries s) p ers"
    and "list_all (live_reader s) (map snd ers)"
  shows "\<exists>tr. vreader_get_reader_by_id_loop x p s =
           Some (Inr (case find (has_id s x) (map snd ers) of
                        None \<Rightarrow> (None, s\<lparr>trace := trace s @ tr\<rparr>)
                      | Some rd \<Rightarrow> (Some rd, (add_reference rd s)\<lparr>trace := trace s @ tr\<rparr>)))"
  using assms
proof (induction ers arbitrary: p s)
  case Nil
  then have "p = None" by simp
  then have "vreader_get_reader_by_id_loop x p s = Some (Inr (None, s\<lparr>trace := trace s @ []\<rparr>))"
    by (simp add: vreader_get_reader_by_id_loop.simps)
  then show ?case by (intro exI [of _ "[]"]) simp
next
  case (Cons a ers)
  obtain e rd where a: "a = (e, rd)" by (cases a)
  from Cons.prems(1) a obtain ent where p: "p = Some e" and ent: "entries s e = Some ent"
    and rd: "reader_e ent = Some rd" and rest: "registry_chain (entries s) (next_e ent) ers"
    by (auto split: option.splits)
  from Cons.prems(2) a have live_rd: "live_reader s rd"
    and live: "list_all (live_reader s) (map snd ers)"
    by simp_all
  from live_rd obtain r where r: "readers s rd = Some r"
    and lo: "0 < sint (reference_count r)" and hi: "sint (reference_count r) < 2147483647"
    by (auto simp: live_reader_def split: option.splits)
  let ?lu = "[Qemu_mutex_lock (ReaderLock rd), Qemu_mutex_unlock (ReaderLock rd)]"
  define s1 where "s1 = s\<lparr>readers := (readers s)(rd \<mapsto> r\<lparr>reference_count := reference_count r + 1\<rparr>),
                  trace := trace s @ ?lu\<rparr>"
  have get: "vreader_list_get_reader (Some e) s = Inr (Some rd, s1)"
    using ent rd reference_live [OF r]
    by (simp add: vreader_list_get_reader_def entry_at_def s1_def)
  have at: "reader_at s1 (Some rd) = Inr (rd, r\<lparr>reference_count := reference_count r + 1\<rparr>)"
    by (simp add: reader_at_def s1_def)
  show ?case
  proof (cases "id_r r = x")
    case True
    have "vreader_get_reader_by_id_loop x p s = Some (Inr (Some rd, s1))"
      using p get at True by (subst vreader_get_reader_by_id_loop.simps) simp
    moreover have "s1 = (add_reference rd s)\<lparr>trace := trace s @ ?lu\<rparr>"
      using r by (simp add: s1_def add_reference_def)
    moreover have "find (has_id s x) (map snd (a # ers)) = Some rd"
      using a r True by (simp add: has_id_def)
    ultimately show ?thesis by (intro exI [of _ ?lu]) simp
  next
    case False
    define s2 where "s2 = s\<lparr>trace := trace s @ ?lu @ ?lu\<rparr>"
    have free: "vreader_free (Some rd) s1 = Inr s2"
      using reference_then_free [OF r lo hi s1_def] by (simp add: s2_def)
    have nxt: "vreader_list_get_next (Some e) s2 = Inr (next_e ent)"
      using ent by (simp add: vreader_list_get_next_def entry_at_def s2_def)
    have step: "vreader_get_reader_by_id_loop x p s =
                  vreader_get_reader_by_id_loop x (next_e ent) s2"
      using p get at False free nxt by (subst vreader_get_reader_by_id_loop.simps) simp
    have chain2: "registry_chain (entries s2) (next_e ent) ers"
      using rest by (simp add: s2_def)
    have "live_reader s2 = live_reader s"
      by (rule ext) (simp add: live_reader_def s2_def)
    with live have live2: "list_all (live_reader s2) (map snd ers)"
      by simp
    from Cons.IH [OF chain2 live2] obtain tr where
      ih: "vreader_get_reader_by_id_loop x (next_e ent) s2 =
           Some (Inr (case find (has_id s2 x) (map snd ers) of
                        None \<Rightarrow> (None, s2\<lparr>trace := trace s2 @ tr\<rparr>)
                      | Some rd' \<Rightarrow> (Some rd', (add_reference rd' s2)\<lparr>trace := trace s2 @ tr\<rparr>)))"
      by blast
    have same_id: "has_id s2 x = has_id s x"
      by (rule ext) (simp add: has_id_def s2_def)
    have skip: "find (has_id s x) (map snd (a # ers)) = find (has_id s x) (map snd ers)"
      using a r False by (simp add: has_id_def)
    have st: "s2\<lparr>trace := trace s2 @ tr\<rparr> = s\<lparr>trace := trace s @ (?lu @ ?lu @ tr)\<rparr>"
      "\<And>rd'. (add_reference rd' s2)\<lparr>trace := trace s2 @ tr\<rparr> =
             (add_reference rd' s)\<lparr>trace := trace s @ (?lu @ ?lu @ tr)\<rparr>"
      by (simp_all add: s2_def add_reference_def)
    show ?thesis
      by (intro exI [of _ "?lu @ ?lu @ tr"]) (simp only: step ih same_id skip st)
  qed
qed

text \<open>
  C8. On a registry whose entries, in order, are \<open>ers\<close> and whose readers are live,
  \<open>vreader_get_reader_by_id x\<close> for an \<open>x\<close> other than the sentinel returns, under the list
  mutex, the first reader in registry order whose id is \<open>x\<close>, with one more counted
  reference, or \<open>NULL\<close> when there is none, and changes nothing else. For the sentinel
  \<open>(vreader_id_t)-1\<close> it returns \<open>NULL\<close> at once: the state, trace included, is unchanged,
  so the list mutex is not even taken.
\<close>

theorem lookup_by_id_first_match:
  assumes reg: "vreader_list s = Some l" "vlists s l = Some ls"
    and chain: "registry_chain (entries s) (head ls) ers"
    and live: "list_all (live_reader s) (map snd ers)"
  shows
    "(x \<noteq> - 1 \<longrightarrow>
        (\<exists>tr. vreader_get_reader_by_id x s =
           Some (Inr (case find (has_id s x) (map snd ers) of
                        None \<Rightarrow>
                          (None,
                           s\<lparr>trace := trace s @ [Qemu_mutex_lock ListMutex] @ tr @
                                         [Qemu_mutex_unlock ListMutex]\<rparr>)
                      | Some rd \<Rightarrow>
                          (Some rd,
                           (add_reference rd s)
                             \<lparr>trace := trace s @ [Qemu_mutex_lock ListMutex] @ tr @
                                        [Qemu_mutex_unlock ListMutex]\<rparr>))))) \<and>
     vreader_get_reader_by_id (- 1) s = Some (Inr (None, s))"
proof (intro conjI impI)
  show "vreader_get_reader_by_id (- 1) s = Some (Inr (None, s))"
    by (simp add: vreader_get_reader_by_id_def)
next
  assume x: "x \<noteq> - 1"
  define s1 where "s1 = vreader_list_lock s"
  have s1: "s1 = s\<lparr>trace := trace s @ [Qemu_mutex_lock ListMutex]\<rparr>"
    by (simp add: s1_def vreader_list_lock_def ext_call_def)
  have first: "vreader_list_get_first (vreader_list s1) s1 = Inr (head ls)"
    using reg by (simp add: s1 vreader_list_get_first_def list_at_def)
  have chain1: "registry_chain (entries s1) (head ls) ers"
    using chain by (simp add: s1)
  have "live_reader s1 = live_reader s"
    by (rule ext) (simp add: live_reader_def s1)
  with live have live1: "list_all (live_reader s1) (map snd ers)" by simp
  from by_id_loop_scan [OF chain1 live1, of x] obtain tr where
    loop: "vreader_get_reader_by_id_loop x (head ls) s1 =
           Some (Inr (case find (has_id s1 x) (map snd ers) of
                        None \<Rightarrow> (None, s1\<lparr>trace := trace s1 @ tr\<rparr>)
                      | Some rd \<Rightarrow> (Some rd, (add_reference rd s1)\<lparr>trace := trace s1 @ tr\<rparr>)))"
    by blast
  have same_id: "has_id s1 x = has_id s x"
    by (rule ext) (simp add: has_id_def s1)
  have "vreader_get_reader_by_id x s =
           Some (Inr (case find (has_id s x) (map snd ers) of
                        None \<Rightarrow>
                          (None,
                           s\<lparr>trace := trace s @ [Qemu_mutex_lock ListMutex] @ tr @
                                         [Qemu_mutex_unlock ListMutex]\<rparr>)
                      | Some rd \<Rightarrow>
                          (Some rd,
                           (add_reference rd s)
                             \<lparr>trace := trace s @ [Qemu_mutex_lock ListMutex] @ tr @
                                        [Qemu_mutex_unlock ListMutex]\<rparr>)))"
    using x first loop
    unfolding vreader_get_reader_by_id_def Let_def s1_def [symmetric] same_id
    by (simp add: s1 vreader_list_unlock_def ext_call_def add_reference_def
        split: option.splits)
  then show "\<exists>tr. vreader_get_reader_by_id x s =
           Some (Inr (case find (has_id s x) (map snd ers) of
                        None \<Rightarrow>
                          (None,
                           s\<lparr>trace := trace s @ [Qemu_mutex_lock ListMutex] @ tr @
                                         [Qemu_mutex_unlock ListMutex]\<rparr>)
                      | Some rd \<Rightarrow>
                          (Some rd,
                           (add_reference rd s)
                             \<lparr>trace := trace s @ [Qemu_mutex_lock ListMutex] @ tr @
                                        [Qemu_mutex_unlock ListMutex]\<rparr>)))"
    by blast
qed

text \<open>The theorem at the registry of two readers with ids 5 and 7: id 7 finds the second
  reader, id 9 finds none, the sentinel returns at once.\<close>

theorem lookup_by_id_first_match_witness:
  "vreader_list two_readers = Some 1 \<and>
   vlists two_readers 1 = Some \<lparr>head = Some 4, tail = Some 5\<rparr> \<and>
   registry_chain (entries two_readers) (head \<lparr>head = Some 4, tail = Some 5\<rparr>) [(4, 2), (5, 3)] \<and>
   list_all (live_reader two_readers) (map snd [(4, 2), (5, 3)]) \<and>
   (\<exists>tr. vreader_get_reader_by_id 7 two_readers =
      Some (Inr (Some 3,
        (add_reference 3 two_readers)
          \<lparr>trace := [Qemu_mutex_lock ListMutex] @ tr @ [Qemu_mutex_unlock ListMutex]\<rparr>))) \<and>
   (\<exists>tr. vreader_get_reader_by_id 9 two_readers =
      Some (Inr (None,
        two_readers\<lparr>trace := [Qemu_mutex_lock ListMutex] @ tr @ [Qemu_mutex_unlock ListMutex]\<rparr>))) \<and>
   vreader_get_reader_by_id (- 1) two_readers = Some (Inr (None, two_readers))"
proof -
  have a: "vreader_list two_readers = Some 1" by (simp add: two_readers_def)
  have b: "vlists two_readers 1 = Some \<lparr>head = Some 4, tail = Some 5\<rparr>"
    by (simp add: two_readers_def)
  have c: "registry_chain (entries two_readers) (head \<lparr>head = Some 4, tail = Some 5\<rparr>)
             [(4, 2), (5, 3)]"
    by (simp add: two_readers_def)
  have d: "list_all (live_reader two_readers) (map snd [(4, 2), (5, 3)])"
    by (simp add: two_readers_def live_reader_def)
  have f7: "find (has_id two_readers 7) (map snd [(4, 2), (5, 3)]) = Some 3"
    by (simp add: two_readers_def has_id_def)
  have f9: "find (has_id two_readers 9) (map snd [(4, 2), (5, 3)]) = None"
    by (simp add: two_readers_def has_id_def)
  have n7: "(7 :: vreader_id_t) \<noteq> - 1" and n9: "(9 :: vreader_id_t) \<noteq> - 1" by simp_all
  have t0: "trace two_readers = []" by (simp add: two_readers_def)
  from lookup_by_id_first_match [OF a b c d, of 7] lookup_by_id_first_match [OF a b c d, of 9]
    a b c d n7 n9
  show ?thesis
    unfolding f7 f9 by (simp add: t0)
qed

section \<open>Lookup by name\<close>

lemma by_name_loop_scan:
  assumes "registry_chain (entries s) p ers"
    and "list_all (live_reader s) (map snd ers)"
  shows "\<exists>tr. vreader_get_reader_by_name_loop (Some n) p s =
           Some (case find (ends_name_scan s n) (map snd ers) of
                   None \<Rightarrow> Inr (None, s\<lparr>trace := trace s @ tr\<rparr>)
                 | Some rd \<Rightarrow>
                     if name_is_absent s rd then Inl NullPointer
                     else Inr (Some rd, (add_reference rd s)\<lparr>trace := trace s @ tr\<rparr>))"
  using assms
proof (induction ers arbitrary: p s)
  case Nil
  then have "p = None" by simp
  then have "vreader_get_reader_by_name_loop (Some n) p s =
               Some (Inr (None, s\<lparr>trace := trace s @ []\<rparr>))"
    by (simp add: vreader_get_reader_by_name_loop.simps)
  then show ?case by (intro exI [of _ "[]"]) simp
next
  case (Cons a ers)
  obtain e rd where a: "a = (e, rd)" by (cases a)
  from Cons.prems(1) a obtain ent where p: "p = Some e" and ent: "entries s e = Some ent"
    and rd: "reader_e ent = Some rd" and rest: "registry_chain (entries s) (next_e ent) ers"
    by (auto split: option.splits)
  from Cons.prems(2) a have live_rd: "live_reader s rd"
    and live: "list_all (live_reader s) (map snd ers)"
    by simp_all
  from live_rd obtain r where r: "readers s rd = Some r"
    and lo: "0 < sint (reference_count r)" and hi: "sint (reference_count r) < 2147483647"
    by (auto simp: live_reader_def split: option.splits)
  let ?lu = "[Qemu_mutex_lock (ReaderLock rd), Qemu_mutex_unlock (ReaderLock rd)]"
  define s1 where "s1 = s\<lparr>readers := (readers s)(rd \<mapsto> r\<lparr>reference_count := reference_count r + 1\<rparr>),
                  trace := trace s @ ?lu\<rparr>"
  have get: "vreader_list_get_reader (Some e) s = Inr (Some rd, s1)"
    using ent rd reference_live [OF r]
    by (simp add: vreader_list_get_reader_def entry_at_def s1_def)
  have at: "reader_at s1 (Some rd) = Inr (rd, r\<lparr>reference_count := reference_count r + 1\<rparr>)"
    by (simp add: reader_at_def s1_def)
  consider (absent) "name_r r = None" | (same) "name_r r = Some n"
    | (other) m where "name_r r = Some m" "m \<noteq> n"
    by (cases "name_r r") auto
  then show ?case
  proof cases
    case absent
    have "vreader_get_reader_by_name_loop (Some n) p s = Some (Inl NullPointer)"
      using p get at absent
      by (subst vreader_get_reader_by_name_loop.simps) (simp add: strcmp_eq_def)
    moreover have "find (ends_name_scan s n) (map snd (a # ers)) = Some rd"
      using a r absent by (simp add: ends_name_scan_def)
    moreover have "name_is_absent s rd" using r absent by (simp add: name_is_absent_def)
    ultimately show ?thesis by simp
  next
    case same
    have "vreader_get_reader_by_name_loop (Some n) p s = Some (Inr (Some rd, s1))"
      using p get at same
      by (subst vreader_get_reader_by_name_loop.simps) (simp add: strcmp_eq_def)
    moreover have "s1 = (add_reference rd s)\<lparr>trace := trace s @ ?lu\<rparr>"
      using r by (simp add: s1_def add_reference_def)
    moreover have "find (ends_name_scan s n) (map snd (a # ers)) = Some rd"
      using a r same by (simp add: ends_name_scan_def)
    moreover have "\<not> name_is_absent s rd" using r same by (simp add: name_is_absent_def)
    ultimately show ?thesis by (intro exI [of _ ?lu]) simp
  next
    case other
    define s2 where "s2 = s\<lparr>trace := trace s @ ?lu @ ?lu\<rparr>"
    have free: "vreader_free (Some rd) s1 = Inr s2"
      using reference_then_free [OF r lo hi s1_def] by (simp add: s2_def)
    have nxt: "vreader_list_get_next (Some e) s2 = Inr (next_e ent)"
      using ent by (simp add: vreader_list_get_next_def entry_at_def s2_def)
    have step: "vreader_get_reader_by_name_loop (Some n) p s =
                  vreader_get_reader_by_name_loop (Some n) (next_e ent) s2"
      using p get at other free nxt
      by (subst vreader_get_reader_by_name_loop.simps) (simp add: strcmp_eq_def)
    have chain2: "registry_chain (entries s2) (next_e ent) ers"
      using rest by (simp add: s2_def)
    have "live_reader s2 = live_reader s"
      by (rule ext) (simp add: live_reader_def s2_def)
    with live have live2: "list_all (live_reader s2) (map snd ers)"
      by simp
    from Cons.IH [OF chain2 live2] obtain tr where
      ih: "vreader_get_reader_by_name_loop (Some n) (next_e ent) s2 =
           Some (case find (ends_name_scan s2 n) (map snd ers) of
                   None \<Rightarrow> Inr (None, s2\<lparr>trace := trace s2 @ tr\<rparr>)
                 | Some rd' \<Rightarrow>
                     if name_is_absent s2 rd' then Inl NullPointer
                     else Inr (Some rd', (add_reference rd' s2)\<lparr>trace := trace s2 @ tr\<rparr>))"
      by blast
    have same_scan: "ends_name_scan s2 n = ends_name_scan s n"
      by (rule ext) (simp add: ends_name_scan_def s2_def)
    have same_absent: "name_is_absent s2 = name_is_absent s"
      by (rule ext) (simp add: name_is_absent_def s2_def)
    have skip: "find (ends_name_scan s n) (map snd (a # ers)) =
                  find (ends_name_scan s n) (map snd ers)"
      using a r other by (simp add: ends_name_scan_def)
    have st: "s2\<lparr>trace := trace s2 @ tr\<rparr> = s\<lparr>trace := trace s @ (?lu @ ?lu @ tr)\<rparr>"
      "\<And>rd'. (add_reference rd' s2)\<lparr>trace := trace s2 @ tr\<rparr> =
             (add_reference rd' s)\<lparr>trace := trace s @ (?lu @ ?lu @ tr)\<rparr>"
      by (simp_all add: s2_def add_reference_def)
    show ?thesis
      by (intro exI [of _ "?lu @ ?lu @ tr"])
        (simp only: step ih same_scan same_absent skip st)
  qed
qed

text \<open>
  C10. \<open>vreader_get_reader_by_name\<close> compares the stored name of each reader it reaches
  with the query, without a check for \<open>NULL\<close>. The scan stops at the first reader whose
  name is \<open>NULL\<close> or equal to the query: at a reader without a name the call reads through
  the \<open>NULL\<close> name (a fault), it neither skips the reader nor returns \<open>NULL\<close>; at a match
  it returns the reader with one more reference. So the call returns on every query only when
  every registered reader has a name.
\<close>

theorem lookup_by_name_absent_name:
  assumes reg: "vreader_list s = Some l" "vlists s l = Some ls"
    and chain: "registry_chain (entries s) (head ls) ers"
    and live: "list_all (live_reader s) (map snd ers)"
  shows
    "\<exists>tr. vreader_get_reader_by_name (Some n) s =
       Some (case find (ends_name_scan s n) (map snd ers) of
               None \<Rightarrow>
                 Inr (None,
                      s\<lparr>trace := trace s @ [Qemu_mutex_lock ListMutex] @ tr @
                                    [Qemu_mutex_unlock ListMutex]\<rparr>)
             | Some rd \<Rightarrow>
                 if name_is_absent s rd then Inl NullPointer
                 else Inr (Some rd,
                           (add_reference rd s)
                             \<lparr>trace := trace s @ [Qemu_mutex_lock ListMutex] @ tr @
                                        [Qemu_mutex_unlock ListMutex]\<rparr>))"
proof -
  define s1 where "s1 = vreader_list_lock s"
  have s1: "s1 = s\<lparr>trace := trace s @ [Qemu_mutex_lock ListMutex]\<rparr>"
    by (simp add: s1_def vreader_list_lock_def ext_call_def)
  have first: "vreader_list_get_first (vreader_list s1) s1 = Inr (head ls)"
    using reg by (simp add: s1 vreader_list_get_first_def list_at_def)
  have chain1: "registry_chain (entries s1) (head ls) ers"
    using chain by (simp add: s1)
  have "live_reader s1 = live_reader s"
    by (rule ext) (simp add: live_reader_def s1)
  with live have live1: "list_all (live_reader s1) (map snd ers)" by simp
  from by_name_loop_scan [OF chain1 live1, of n] obtain tr where
    loop: "vreader_get_reader_by_name_loop (Some n) (head ls) s1 =
           Some (case find (ends_name_scan s1 n) (map snd ers) of
                   None \<Rightarrow> Inr (None, s1\<lparr>trace := trace s1 @ tr\<rparr>)
                 | Some rd \<Rightarrow>
                     if name_is_absent s1 rd then Inl NullPointer
                     else Inr (Some rd, (add_reference rd s1)\<lparr>trace := trace s1 @ tr\<rparr>))"
    by blast
  have same_scan: "ends_name_scan s1 n = ends_name_scan s n"
    by (rule ext) (simp add: ends_name_scan_def s1)
  have same_absent: "name_is_absent s1 = name_is_absent s"
    by (rule ext) (simp add: name_is_absent_def s1)
  have "vreader_get_reader_by_name (Some n) s =
       Some (case find (ends_name_scan s n) (map snd ers) of
               None \<Rightarrow>
                 Inr (None,
                      s\<lparr>trace := trace s @ [Qemu_mutex_lock ListMutex] @ tr @
                                    [Qemu_mutex_unlock ListMutex]\<rparr>)
             | Some rd \<Rightarrow>
                 if name_is_absent s rd then Inl NullPointer
                 else Inr (Some rd,
                           (add_reference rd s)
                             \<lparr>trace := trace s @ [Qemu_mutex_lock ListMutex] @ tr @
                                        [Qemu_mutex_unlock ListMutex]\<rparr>))"
    using first loop
    unfolding vreader_get_reader_by_name_def Let_def s1_def [symmetric] same_scan same_absent
    by (simp add: s1 vreader_list_unlock_def ext_call_def add_reference_def
        split: option.splits)
  then show ?thesis by blast
qed

text \<open>The theorem at the registry whose second reader has no name: the query \<open>B\<close> reaches
  that reader and faults, the query \<open>A\<close> stops at the first reader and returns it.\<close>

theorem lookup_by_name_absent_name_witness:
  "vreader_list unnamed_second = Some 1 \<and>
   vlists unnamed_second 1 = Some \<lparr>head = Some 4, tail = Some 5\<rparr> \<and>
   registry_chain (entries unnamed_second) (head \<lparr>head = Some 4, tail = Some 5\<rparr>)
     [(4, 2), (5, 3)] \<and>
   list_all (live_reader unnamed_second) (map snd [(4, 2), (5, 3)]) \<and>
   vreader_get_reader_by_name (Some ''B'') unnamed_second = Some (Inl NullPointer) \<and>
   (\<exists>tr. vreader_get_reader_by_name (Some ''A'') unnamed_second =
      Some (Inr (Some 2,
        (add_reference 2 unnamed_second)
          \<lparr>trace := [Qemu_mutex_lock ListMutex] @ tr @ [Qemu_mutex_unlock ListMutex]\<rparr>)))"
proof -
  have a: "vreader_list unnamed_second = Some 1" by (simp add: unnamed_second_def)
  have b: "vlists unnamed_second 1 = Some \<lparr>head = Some 4, tail = Some 5\<rparr>"
    by (simp add: unnamed_second_def)
  have c: "registry_chain (entries unnamed_second) (head \<lparr>head = Some 4, tail = Some 5\<rparr>)
             [(4, 2), (5, 3)]"
    by (simp add: unnamed_second_def)
  have d: "list_all (live_reader unnamed_second) (map snd [(4, 2), (5, 3)])"
    by (simp add: unnamed_second_def live_reader_def)
  have fB: "find (ends_name_scan unnamed_second ''B'') (map snd [(4, 2), (5, 3)]) = Some 3"
    by (simp add: unnamed_second_def ends_name_scan_def)
  have fA: "find (ends_name_scan unnamed_second ''A'') (map snd [(4, 2), (5, 3)]) = Some 2"
    by (simp add: unnamed_second_def ends_name_scan_def)
  have n3: "name_is_absent unnamed_second 3" and n2: "\<not> name_is_absent unnamed_second 2"
    by (simp_all add: unnamed_second_def name_is_absent_def)
  have t0: "trace unnamed_second = []" by (simp add: unnamed_second_def)
  from lookup_by_name_absent_name [OF a b c d, of "''B''"]
    lookup_by_name_absent_name [OF a b c d, of "''A''"] a b c d
  show ?thesis
    unfolding fA fB by (simp add: t0 n2 n3)
qed

section \<open>Events\<close>

lemma chain_unique:
  "registry_chain h p xs \<Longrightarrow> registry_chain h p ys \<Longrightarrow> xs = ys"
proof (induction xs arbitrary: p ys)
  case Nil
  then show ?case by (cases ys) auto
next
  case (Cons x xs)
  obtain e rd where x: "x = (e, rd)" by (cases x)
  from Cons.prems(1) x obtain ent where p: "p = Some e" and ent: "h e = Some ent"
    and rd: "reader_e ent = Some rd" and rest: "registry_chain h (next_e ent) xs"
    by (auto split: option.splits)
  from Cons.prems(2) p obtain y ys' where ys: "ys = y # ys'" by (cases ys) auto
  obtain e' rd' where y: "y = (e', rd')" by (cases y)
  from Cons.prems(2) ys y p ent rd have "e' = e" "rd' = rd" "registry_chain h (next_e ent) ys'"
    by (auto split: option.splits)
  with Cons.IH [OF rest] x y ys show ?case by simp
qed

lemma chain_suffix:
  "registry_chain h p (xs @ ys) \<Longrightarrow> \<exists>q. registry_chain h q ys"
proof (induction xs arbitrary: p)
  case Nil
  then show ?case by auto
next
  case (Cons x xs)
  obtain e rd where x: "x = (e, rd)" by (cases x)
  from Cons.prems x obtain ent where "p = Some e" "h e = Some ent" "reader_e ent = Some rd"
    and rest: "registry_chain h (next_e ent) (xs @ ys)"
    by (auto split: option.splits)
  from rest show ?case by (rule Cons.IH)
qed

lemma chain_head_fresh:
  assumes "registry_chain h p ((e, rd) # rest)"
  shows "e \<notin> fst ` set rest"
proof
  assume "e \<in> fst ` set rest"
  then obtain rd' where "(e, rd') \<in> set rest" by auto
  then obtain pre post where rest: "rest = pre @ (e, rd') # post"
    by (auto simp: in_set_conv_decomp)
  from assms have p: "p = Some e" by simp
  from assms rest have "registry_chain h p (((e, rd) # pre) @ (e, rd') # post)" by simp
  then obtain q where q: "registry_chain h q ((e, rd') # post)"
    by (blast dest: chain_suffix)
  then have "q = Some e" by simp
  with q have "registry_chain h (Some e) ((e, rd') # post)" by simp
  moreover from assms p have "registry_chain h (Some e) ((e, rd) # rest)" by simp
  ultimately have "(e, rd') # post = (e, rd) # rest"
    by (rule chain_unique)
  with rest show False by (auto dest: arg_cong [where f = length])
qed

lemma chain_append:
  assumes "registry_chain h p ers" and "ers \<noteq> []" and "h (fst (last ers)) = Some te"
    and "n \<notin> fst ` set ers"
  shows "registry_chain
           (h(n \<mapsto> \<lparr>next_e = None, prev_e = pv, reader_e = Some a\<rparr>,
              fst (last ers) \<mapsto> te\<lparr>next_e := Some n\<rparr>))
           p (ers @ [(n, a)])"
  using assms
proof (induction ers arbitrary: p)
  case Nil
  then show ?case by simp
next
  case (Cons x ers)
  obtain e rd where x: "x = (e, rd)" by (cases x)
  from Cons.prems(1) x obtain ent where p: "p = Some e" and ent: "h e = Some ent"
    and rd: "reader_e ent = Some rd" and rest: "registry_chain h (next_e ent) ers"
    by (auto split: option.splits)
  from Cons.prems(4) x have ne: "n \<noteq> e" and fresh: "n \<notin> fst ` set ers" by auto
  show ?case
  proof (cases "ers = []")
    case True
    with rest have "next_e ent = None" by simp
    with True x p ent rd ne Cons.prems(3) show ?thesis by simp
  next
    case False
    then have last: "last (x # ers) = last ers" by simp
    from Cons.prems(1) x have "e \<notin> fst ` set ers" by (blast dest: chain_head_fresh)
    moreover from False have "fst (last ers) \<in> fst ` set ers" by simp
    ultimately have et: "e \<noteq> fst (last ers)" by auto
    from Cons.prems(3) last have te: "h (fst (last ers)) = Some te" by simp
    from Cons.IH [OF rest False te fresh] x p ent rd ne et last show ?thesis by simp
  qed
qed

lemma chain_last_allocated:
  "registry_chain h p ers \<Longrightarrow> ers \<noteq> [] \<Longrightarrow> \<exists>te. h (fst (last ers)) = Some te"
proof (induction ers arbitrary: p)
  case Nil
  then show ?case by simp
next
  case (Cons x ers)
  obtain e rd where x: "x = (e, rd)" by (cases x)
  with Cons.prems(1) obtain ent where ent: "h e = Some ent"
    and rest: "registry_chain h (next_e ent) ers"
    by (auto split: option.splits)
  show ?case
  proof (cases "ers = []")
    case True
    with x ent show ?thesis by simp
  next
    case False
    with Cons.IH [OF rest] show ?thesis by simp
  qed
qed

text \<open>
  C9. \<open>vreader_add_reader\<close> and \<open>vreader_insert_card\<close> call the event sink last, and what
  they hand to it is a state \<open>s1\<close> in which the change is already made and every mutex
  taken has been released; \<open>s1\<close> is the same for every sink. For \<open>vreader_add_reader\<close> on a
  well-formed registry the trace of \<open>s1\<close> ends with the release of the list mutex and the
  registry of \<open>s1\<close> is the old one followed by the new entry. For \<open>vreader_insert_card\<close> on
  any live reader the trace of \<open>s1\<close> ends with the release of the reader's lock, the reader
  of \<open>s1\<close> holds the new card, and the event is card-inserted for a card and card-removed
  for none. So whatever the sink reads from the state it is called on, it reads the new
  state.
\<close>

theorem events_follow_unlock:
  assumes live: "readers s a = Some r"
  shows
    "(vreader_list s = Some l \<and> vlists s l = Some ls \<and>
      registry_chain (entries s) (head ls) ers \<and>
      tail ls = (if ers = [] then None else Some (fst (last ers))) \<and>
      brk s \<notin> fst ` set ers \<longrightarrow>
      (\<exists>s1 ls'.
         (\<forall>queue_vevent.
            vreader_add_reader queue_vevent (Some a) s =
              Inr (VREADER_OK,
                   queue_vevent (VEvent VEVENT_READER_INSERT (Some a) None) s1)) \<and>
         trace s1 = trace s @
           [Qemu_mutex_lock (ReaderLock a), Qemu_mutex_unlock (ReaderLock a),
            Qemu_mutex_lock ListMutex, Qemu_mutex_unlock ListMutex] \<and>
         vreader_list s1 = Some l \<and> vlists s1 l = Some ls' \<and>
         registry_chain (entries s1) (head ls') (ers @ [(brk s, a)]) \<and>
         tail ls' = Some (brk s) \<and>
         readers s1 a = Some (r\<lparr>reference_count := reference_count r + 1\<rparr>))) \<and>
     (\<forall>queue_vevent.
        vreader_insert_card queue_vevent (Some a) c s =
          Inr (VREADER_OK,
               queue_vevent
                 (VEvent (if c = None then VEVENT_CARD_REMOVE else VEVENT_CARD_INSERT)
                    (Some a) c)
                 (s\<lparr>readers := (readers s)(a \<mapsto> r\<lparr>card_r := c\<rparr>),
                    trace := trace s @ [Qemu_mutex_lock (ReaderLock a)] @
                      (case card_r r of None \<Rightarrow> [] | Some c0 \<Rightarrow> [Vcard_free c0]) @
                      [Vcard_reference c, Qemu_mutex_unlock (ReaderLock a)]\<rparr>)))"
proof (intro conjI impI allI)
  fix queue_vevent :: event_sink
  show "vreader_insert_card queue_vevent (Some a) c s =
          Inr (VREADER_OK,
               queue_vevent
                 (VEvent (if c = None then VEVENT_CARD_REMOVE else VEVENT_CARD_INSERT)
                    (Some a) c)
                 (s\<lparr>readers := (readers s)(a \<mapsto> r\<lparr>card_r := c\<rparr>),
                    trace := trace s @ [Qemu_mutex_lock (ReaderLock a)] @
                      (case card_r r of None \<Rightarrow> [] | Some c0 \<Rightarrow> [Vcard_free c0]) @
                      [Vcard_reference c, Qemu_mutex_unlock (ReaderLock a)]\<rparr>))"
    using live
    by (simp add: vreader_insert_card_def vreader_queue_card_event_def
        vevent_new_def vreader_lock_def vreader_unlock_def reader_at_def vcard_reference_def
        vcard_free_def ext_call_def Let_def split: option.splits)
next
  assume wf: "vreader_list s = Some l \<and> vlists s l = Some ls \<and>
      registry_chain (entries s) (head ls) ers \<and>
      tail ls = (if ers = [] then None else Some (fst (last ers))) \<and>
      brk s \<notin> fst ` set ers"
  then have reg: "vreader_list s = Some l" "vlists s l = Some ls"
    and chain: "registry_chain (entries s) (head ls) ers"
    and last: "tail ls = (if ers = [] then None else Some (fst (last ers)))"
    and fresh: "brk s \<notin> fst ` set ers"
    by simp_all
  let ?n = "brk s"
  let ?new = "\<lparr>next_e = None, prev_e = tail ls, reader_e = Some a\<rparr>"
  let ?tr = "trace s @
          [Qemu_mutex_lock (ReaderLock a), Qemu_mutex_unlock (ReaderLock a),
           Qemu_mutex_lock ListMutex, Qemu_mutex_unlock ListMutex]"
  let ?r' = "r\<lparr>reference_count := reference_count r + 1\<rparr>"
  let ?rs = "(readers s)(a \<mapsto> ?r')"
  let ?ev = "VEvent VEVENT_READER_INSERT (Some a) None"
  have new_entry: "vreader_list_entry_new (Some a) s =
      Inr (Some ?n,
           s\<lparr>readers := ?rs,
             entries := (entries s)(?n \<mapsto> \<lparr>next_e = None, prev_e = None, reader_e = Some a\<rparr>),
             brk := ?n + 1,
             trace := trace s @
               [Qemu_mutex_lock (ReaderLock a), Qemu_mutex_unlock (ReaderLock a)]\<rparr>)"
    using live
    by (simp add: vreader_list_entry_new_def qemu_malloc_def vreader_reference_def
        vreader_lock_def vreader_unlock_def reader_at_def ext_call_def)
  show "\<exists>s1 ls'.
         (\<forall>queue_vevent.
            vreader_add_reader queue_vevent (Some a) s =
              Inr (VREADER_OK, queue_vevent ?ev s1)) \<and>
         trace s1 = ?tr \<and>
         vreader_list s1 = Some l \<and> vlists s1 l = Some ls' \<and>
         registry_chain (entries s1) (head ls') (ers @ [(brk s, a)]) \<and>
         tail ls' = Some (brk s) \<and>
         readers s1 a = Some ?r'"
  proof (cases "ers = []")
    case True
    with chain last have hd: "head ls = None" and tl: "tail ls = None" by simp_all
    let ?s1 = "s\<lparr>readers := ?rs, brk := ?n + 1,
                  entries := (entries s)(?n \<mapsto> ?new),
                  vlists := (vlists s)(l \<mapsto> ls\<lparr>head := Some ?n, tail := Some ?n\<rparr>),
                  trace := ?tr\<rparr>"
    have "\<forall>queue_vevent.
            vreader_add_reader queue_vevent (Some a) s =
              Inr (VREADER_OK, queue_vevent ?ev ?s1)"
      using reg hd tl
      by (simp add: vreader_add_reader_def new_entry vreader_list_lock_def
          vreader_list_unlock_def vreader_queue_def entry_at_def list_at_def ext_call_def
          vevent_new_def Let_def)
    moreover have "registry_chain (entries ?s1) (head (ls\<lparr>head := Some ?n, tail := Some ?n\<rparr>))
                     (ers @ [(?n, a)])"
      using True tl by simp
    ultimately show ?thesis
      using reg
      by (intro exI [of _ ?s1] exI [of _ "ls\<lparr>head := Some ?n, tail := Some ?n\<rparr>"]) simp
  next
    case False
    define t where "t = fst (last ers)"
    from False last have tl: "tail ls = Some t" by (simp add: t_def)
    from False chain obtain h0 where hd: "head ls = Some h0" by (cases ers) auto
    from chain_last_allocated [OF chain False] obtain te where te: "entries s t = Some te"
      by (auto simp: t_def)
    from False have "t \<in> fst ` set ers" by (simp add: t_def)
    with fresh have tn: "t \<noteq> ?n" by metis
    let ?s1 = "s\<lparr>readers := ?rs, brk := ?n + 1,
                  entries := (entries s)(?n \<mapsto> ?new, t \<mapsto> te\<lparr>next_e := Some ?n\<rparr>),
                  vlists := (vlists s)(l \<mapsto> ls\<lparr>tail := Some ?n\<rparr>),
                  trace := ?tr\<rparr>"
    have "\<forall>queue_vevent.
            vreader_add_reader queue_vevent (Some a) s =
              Inr (VREADER_OK, queue_vevent ?ev ?s1)"
      using reg hd tl te tn
      by (simp add: vreader_add_reader_def new_entry vreader_list_lock_def
          vreader_list_unlock_def vreader_queue_def entry_at_def list_at_def ext_call_def
          vevent_new_def Let_def)
    moreover have "registry_chain (entries ?s1) (head (ls\<lparr>tail := Some ?n\<rparr>)) (ers @ [(?n, a)])"
      using chain_append [OF chain False _ fresh, of te "tail ls" a] te
      by (simp add: t_def)
    ultimately show ?thesis
      using reg
      by (intro exI [of _ ?s1] exI [of _ "ls\<lparr>tail := Some ?n\<rparr>"]) simp
  qed
qed

text \<open>The theorem at the registry of two readers: the first reader is registered a second
  time (its new entry is at address 6), and card 9 is inserted into it. Two sinks that look
  at the state they are called on, and record the event only when they see the new entry at
  the end of the registry, or the new card in the reader, do record it.\<close>

theorem events_follow_unlock_witness:
  "readers two_readers 2 =
     Some \<lparr>reference_count = 2, card_r = None, name_r = Some ''A'', id_r = 5,
           reader_private = None, reader_private_free = None\<rparr> \<and>
   vreader_list two_readers = Some 1 \<and>
   vlists two_readers 1 = Some \<lparr>head = Some 4, tail = Some 5\<rparr> \<and>
   registry_chain (entries two_readers) (head \<lparr>head = Some 4, tail = Some 5\<rparr>)
     [(4, 2), (5, 3)] \<and>
   brk two_readers \<notin> fst ` set [(4, 2), (5, 3 :: addr)] \<and>
   (\<exists>s1 ls'.
      (\<forall>queue_vevent.
         vreader_add_reader queue_vevent (Some 2) two_readers =
           Inr (VREADER_OK, queue_vevent (VEvent VEVENT_READER_INSERT (Some 2) None) s1)) \<and>
      trace s1 =
        [Qemu_mutex_lock (ReaderLock 2), Qemu_mutex_unlock (ReaderLock 2),
         Qemu_mutex_lock ListMutex, Qemu_mutex_unlock ListMutex] \<and>
      vreader_list s1 = Some 1 \<and> vlists s1 1 = Some ls' \<and>
      registry_chain (entries s1) (head ls') [(4, 2), (5, 3), (6, 2)] \<and>
      tail ls' = Some 6) \<and>
   (\<exists>s2.
      vreader_add_reader
        (\<lambda>ev st. if registry_chain (entries st) (Some 4) [(4, 2), (5, 3), (6, 2)]
                  then vevent_queue_vevent ev st else st)
        (Some 2) two_readers = Inr (VREADER_OK, s2) \<and>
      trace s2 =
        [Qemu_mutex_lock (ReaderLock 2), Qemu_mutex_unlock (ReaderLock 2),
         Qemu_mutex_lock ListMutex, Qemu_mutex_unlock ListMutex,
         Vevent_queue_vevent (VEvent VEVENT_READER_INSERT (Some 2) None)]) \<and>
   (\<exists>s2.
      vreader_insert_card
        (\<lambda>ev st. case readers st 2 of
                    None \<Rightarrow> st
                  | Some rd \<Rightarrow> if card_r rd = Some 9 then vevent_queue_vevent ev st else st)
        (Some 2) (Some 9) two_readers = Inr (VREADER_OK, s2) \<and>
      trace s2 =
        [Qemu_mutex_lock (ReaderLock 2), Vcard_reference (Some 9),
         Qemu_mutex_unlock (ReaderLock 2),
         Vevent_queue_vevent (VEvent VEVENT_CARD_INSERT (Some 2) (Some 9))])"
proof -
  let ?r = "\<lparr>reference_count = 2, card_r = None, name_r = Some ''A'', id_r = 5,
             reader_private = None, reader_private_free = None\<rparr>"
  let ?ls = "\<lparr>head = Some 4, tail = Some 5\<rparr>"
  let ?ers = "[(4, 2), (5, 3 :: addr)] :: (addr \<times> addr) list"
  let ?seen = "\<lambda>ev st. if registry_chain (entries st) (Some 4) [(4, 2), (5, 3), (6, 2)]
                         then vevent_queue_vevent ev st else st"
  let ?held = "\<lambda>ev st. case readers st 2 of
                           None \<Rightarrow> st
                         | Some rd \<Rightarrow>
                             if card_r rd = Some 9 then vevent_queue_vevent ev st else st"
  have live: "readers two_readers 2 = Some ?r" by (simp add: two_readers_def)
  have reg: "vreader_list two_readers = Some 1" "vlists two_readers 1 = Some ?ls"
    by (simp_all add: two_readers_def)
  have chain: "registry_chain (entries two_readers) (head ?ls) ?ers"
    by (simp add: two_readers_def)
  have last: "tail ?ls = (if ?ers = [] then None else Some (fst (last ?ers)))" by simp
  have fresh: "brk two_readers \<notin> fst ` set ?ers" by (simp add: two_readers_def)
  have b: "brk two_readers = 6" and t0: "trace two_readers = []"
    by (simp_all add: two_readers_def)
  note inst = events_follow_unlock
    [OF live, where l = 1 and ls = "?ls" and ers = "?ers" and c = "Some 9"]
  from inst reg chain last fresh obtain s1 ls' where
    add: "\<forall>queue_vevent.
            vreader_add_reader queue_vevent (Some 2) two_readers =
              Inr (VREADER_OK, queue_vevent (VEvent VEVENT_READER_INSERT (Some 2) None) s1)"
    and tr: "trace s1 =
        [Qemu_mutex_lock (ReaderLock 2), Qemu_mutex_unlock (ReaderLock 2),
         Qemu_mutex_lock ListMutex, Qemu_mutex_unlock ListMutex]"
    and reg1: "vreader_list s1 = Some 1" "vlists s1 1 = Some ls'"
    and chain1: "registry_chain (entries s1) (head ls') [(4, 2), (5, 3), (6, 2)]"
    and tail1: "tail ls' = Some 6"
    unfolding b t0 by auto
  from chain1 have hd1: "head ls' = Some 4" by simp
  have seen: "vreader_add_reader ?seen (Some 2) two_readers =
                Inr (VREADER_OK,
                     vevent_queue_vevent (VEvent VEVENT_READER_INSERT (Some 2) None) s1)"
    using add [rule_format, of ?seen] chain1 unfolding hd1 by simp
  from inst have ins: "vreader_insert_card ?held (Some 2) (Some 9) two_readers =
      Inr (VREADER_OK,
           ?held (VEvent VEVENT_CARD_INSERT (Some 2) (Some 9))
             (two_readers\<lparr>readers := (readers two_readers)(2 \<mapsto> ?r\<lparr>card_r := Some 9\<rparr>),
                trace := [Qemu_mutex_lock (ReaderLock 2), Vcard_reference (Some 9),
                          Qemu_mutex_unlock (ReaderLock 2)]\<rparr>))"
    by (simp add: t0)
  have first: "\<exists>s1 ls'.
      (\<forall>queue_vevent.
         vreader_add_reader queue_vevent (Some 2) two_readers =
           Inr (VREADER_OK, queue_vevent (VEvent VEVENT_READER_INSERT (Some 2) None) s1)) \<and>
      trace s1 =
        [Qemu_mutex_lock (ReaderLock 2), Qemu_mutex_unlock (ReaderLock 2),
         Qemu_mutex_lock ListMutex, Qemu_mutex_unlock ListMutex] \<and>
      vreader_list s1 = Some 1 \<and> vlists s1 1 = Some ls' \<and>
      registry_chain (entries s1) (head ls') [(4, 2), (5, 3), (6, 2)] \<and>
      tail ls' = Some 6"
    using add tr reg1 chain1 tail1 by blast
  have second: "\<exists>s2.
      vreader_add_reader ?seen (Some 2) two_readers = Inr (VREADER_OK, s2) \<and>
      trace s2 =
        [Qemu_mutex_lock (ReaderLock 2), Qemu_mutex_unlock (ReaderLock 2),
         Qemu_mutex_lock ListMutex, Qemu_mutex_unlock ListMutex,
         Vevent_queue_vevent (VEvent VEVENT_READER_INSERT (Some 2) None)]"
    using seen tr by (simp add: vevent_queue_vevent_def ext_call_def)
  have third: "\<exists>s2.
      vreader_insert_card ?held (Some 2) (Some 9) two_readers = Inr (VREADER_OK, s2) \<and>
      trace s2 =
        [Qemu_mutex_lock (ReaderLock 2), Vcard_reference (Some 9),
         Qemu_mutex_unlock (ReaderLock 2),
         Vevent_queue_vevent (VEvent VEVENT_CARD_INSERT (Some 2) (Some 9))]"
    using ins by (simp add: vevent_queue_vevent_def ext_call_def)
  from live reg chain fresh first second third show ?thesis by blast
qed

end
